theory Spec2Isabelle
  imports Main "HOL-Library.Finite_Map" "HOL-Library.Char_ord" "HOL-Library.List_Lexorder"
begin

section \<open>Version comparison (controllers/util/util.go)\<close>

subsection \<open>The library functions the code calls\<close>

text \<open>
  Go strings are byte sequences; \<^typ>\<open>string\<close> is a list of 8-bit characters. The
  separators the code passes (\<^verbatim>\<open>"v"\<close> and \<^verbatim>\<open>"."\<close>) are single bytes, so the two
  functions of package \<^verbatim>\<open>strings\<close> are modelled for a one-byte separator.

  \<^verbatim>\<open>strings.Cut(s, sep)\<close> slices \<^verbatim>\<open>s\<close> around the first instance of \<^verbatim>\<open>sep\<close> and returns
  the text before it, the text after it and whether it was found; when it is not found
  the result is \<^verbatim>\<open>(s, "", false)\<close>.
\<close>

definition strings_Cut :: "string \<Rightarrow> char \<Rightarrow> string \<times> string \<times> bool" where
  "strings_Cut s sep =
     (if sep \<in> set s
      then (takeWhile (\<lambda>c. c \<noteq> sep) s, tl (dropWhile (\<lambda>c. c \<noteq> sep) s), True)
      else (s, [], False))"

text \<open>
  \<^verbatim>\<open>strings.Split(s, sep)\<close> returns the substrings between the separators: one more
  piece than there are separators, so the empty string gives one empty piece.
\<close>

fun strings_Split :: "string \<Rightarrow> char \<Rightarrow> string list" where
  "strings_Split [] sep = [[]]"
| "strings_Split (c # cs) sep =
     (if c = sep then [] # strings_Split cs sep
      else (c # hd (strings_Split cs sep)) # tl (strings_Split cs sep))"

text \<open>
  \<^verbatim>\<open>strconv.Atoi\<close> reads an optional sign followed by at least one decimal digit and
  nothing else. It returns a \<^verbatim>\<open>*NumError\<close> holding the input, with \<^verbatim>\<open>ErrSyntax\<close> or
  \<^verbatim>\<open>ErrRange\<close>. The digits are read from the left into an unsigned 64-bit number
  (\<^verbatim>\<open>ParseUint\<close>): the first byte that is no digit gives \<^verbatim>\<open>ErrSyntax\<close>, and digits whose
  number passes \<open>2^64 - 1\<close> give \<^verbatim>\<open>ErrRange\<close> at once, before any later byte is looked
  at. A number read to the end that does not fit an \<^verbatim>\<open>int\<close> (64 bits here) gives
  \<^verbatim>\<open>ErrRange\<close>.

  Besides the errors the function returns, a Go slice read out of range panics; the panic
  is the third error value, with the index and the length of the slice.
\<close>

datatype num_err = ErrSyntax | ErrRange

datatype error =
    NumError string num_err
  | PanicIndexOutOfRange nat nat

definition is_digit :: "char \<Rightarrow> bool" where
  "is_digit c = (48 \<le> (of_char c :: nat) \<and> (of_char c :: nat) \<le> 57)"

definition digit_value :: "char \<Rightarrow> int" where
  "digit_value c = int (of_char c) - 48"

fun parseDigits :: "string \<Rightarrow> int \<Rightarrow> num_err + int" where
  "parseDigits [] n = Inr n"
| "parseDigits (c # cs) n =
     (if \<not> is_digit c then Inl ErrSyntax
      else if 2 ^ 64 - 1 < n * 10 + digit_value c then Inl ErrRange
      else parseDigits cs (n * 10 + digit_value c))"

definition strconv_Atoi :: "string \<Rightarrow> error + int" where
  "strconv_Atoi s =
     (let neg = (s \<noteq> [] \<and> hd s = CHR ''-'');
          ds = (if s \<noteq> [] \<and> (hd s = CHR ''-'' \<or> hd s = CHR ''+'') then tl s else s)
      in if ds = [] then Inl (NumError s ErrSyntax)
         else (case parseDigits ds 0 of
                 Inl kind \<Rightarrow> Inl (NumError s kind)
               | Inr un \<Rightarrow>
                   if \<not> neg \<and> 2 ^ 63 \<le> un then Inl (NumError s ErrRange)
                   else if neg \<and> 2 ^ 63 < un then Inl (NumError s ErrRange)
                   else Inr (if neg then - un else un)))"

subsection \<open>CompareChannelVersion\<close>

text \<open>
  The loop \<^verbatim>\<open>for index := range v1Slice\<close> (lines 162 to 179). Each round reads
  \<^verbatim>\<open>v1Slice[index]\<close>, parses it, then reads \<^verbatim>\<open>v2Slice[index]\<close>, which panics when
  \<^verbatim>\<open>v2Slice\<close> is too short, and parses it. The function returns the pair
  \<^verbatim>\<open>(v1IsLarger, err)\<close>; with an error the boolean is \<^verbatim>\<open>false\<close> and carries no
  information, so the result is a sum: the error, or the boolean.
\<close>

function compareLoop :: "string list \<Rightarrow> string list \<Rightarrow> nat \<Rightarrow> error + bool" where
  "compareLoop v1Slice v2Slice index =
     (if index < length v1Slice then
        (case strconv_Atoi (v1Slice ! index) of
           Inl e1 \<Rightarrow> Inl e1
         | Inr v1SplitInt \<Rightarrow>
             if length v2Slice \<le> index
             then Inl (PanicIndexOutOfRange index (length v2Slice))
             else (case strconv_Atoi (v2Slice ! index) of
                     Inl e2 \<Rightarrow> Inl e2
                   | Inr v2SplitInt \<Rightarrow>
                       if v1SplitInt > v2SplitInt then Inr True
                       else if v1SplitInt = v2SplitInt
                       then compareLoop v1Slice v2Slice (index + 1)
                       else Inr False))
      else Inr False)"
  by pat_completeness auto
termination
  by (relation "measure (\<lambda>(v1Slice, v2Slice, index). length v1Slice - index)") auto

declare compareLoop.simps [simp del]

text \<open>
  Lines 142 to 161: the two component lists the loop runs on. Line 153 is kept as the
  source has it: when \<^verbatim>\<open>v2\<close> holds no \<^verbatim>\<open>v\<close>, it is \<^verbatim>\<open>v1Cut\<close> that is set to
  \<^verbatim>\<open>"0.0"\<close>, and \<^verbatim>\<open>v2Cut\<close> stays the empty text that \<^verbatim>\<open>strings.Cut\<close> returned.
\<close>

definition normalizedSlices :: "string \<Rightarrow> string \<Rightarrow> string list \<times> string list" where
  "normalizedSlices v1 v2 =
     (let (before1, v1Cut, isExist1) = strings_Cut v1 CHR ''v'';
          v1Cut = (if \<not> isExist1 then ''0.0'' else v1Cut);
          v1Slice = strings_Split v1Cut CHR ''.'';
          v1Cut = (if length v1Slice = 1 then v1Cut @ ''.0'' else v1Cut);
          (before2, v2Cut, isExist2) = strings_Cut v2 CHR ''v'';
          v1Cut = (if \<not> isExist2 then ''0.0'' else v1Cut);
          v2Slice = strings_Split v2Cut CHR ''.'';
          v2Cut = (if length v2Slice = 1 then v2Cut @ ''.0'' else v2Cut);
          v1Slice = strings_Split v1Cut CHR ''.'';
          v2Slice = strings_Split v2Cut CHR ''.''
      in (v1Slice, v2Slice))"

definition CompareChannelVersion :: "string \<Rightarrow> string \<Rightarrow> error + bool" where
  "CompareChannelVersion v1 v2 =
     (case normalizedSlices v1 v2 of (v1Slice, v2Slice) \<Rightarrow> compareLoop v1Slice v2Slice 0)"

text \<open>
  The loop compares the components at index \<open>i\<close> when it gets that far: every earlier
  index is inside both lists and holds two components that parse to the same integer.
\<close>

definition comparedAt :: "string list \<Rightarrow> string list \<Rightarrow> nat \<Rightarrow> bool" where
  "comparedAt v1Slice v2Slice i =
     (i < length v1Slice \<and>
      (\<forall>j<i. j < length v2Slice \<and>
         (\<exists>n. strconv_Atoi (v1Slice ! j) = Inr n \<and> strconv_Atoi (v2Slice ! j) = Inr n)))"

section \<open>Deep merge of two custom resources (controllers/util/merge.go)\<close>

subsection \<open>Decoded documents\<close>

text \<open>
  \<^verbatim>\<open>json.Unmarshal\<close> into a \<^verbatim>\<open>map[string]interface{}\<close> stores \<^verbatim>\<open>nil\<close> for
  \<^verbatim>\<open>null\<close>, a \<^verbatim>\<open>bool\<close>, a \<^verbatim>\<open>float64\<close>, a \<^verbatim>\<open>string\<close>, a
  \<^verbatim>\<open>[]interface{}\<close> or a \<^verbatim>\<open>map[string]interface{}\<close>. The merge only copies and
  compares numbers, and the decoder yields no NaN, so a number is a rational and the two
  zeros are one value, as they are for Go's \<^verbatim>\<open>==\<close>. A Go map has unique keys and no
  order: it is a finite map, and \<^verbatim>\<open>reflect.DeepEqual\<close> on decoded values is equality.
  The maps and slices the decoder puts inside a value are made, never nil.
\<close>

datatype json =
    JNull
  | JBool bool
  | JNumber rat
  | JString string
  | JArray "json list"
  | JObject "(string, json) fmap"

type_synonym object = "(string, json) fmap"

text \<open>The Go map read \<^verbatim>\<open>m[key]\<close>: the nil interface when the key is absent.\<close>

definition mapIndex :: "object \<Rightarrow> string \<Rightarrow> json" where
  "mapIndex m key = (case fmlookup m key of None \<Rightarrow> JNull | Some v \<Rightarrow> v)"

text \<open>
  A variable of type \<^verbatim>\<open>map[string]interface{}\<close> holds a map or is nil:
  \<^verbatim>\<open>json.Unmarshal\<close> sets the map it is given to nil when the text is \<^verbatim>\<open>null\<close>. A nil
  map reads as an empty one, has no key to range over, and panics when written to.
\<close>

datatype gomap = NilMap | MapOf object

datatype panic =
    PanicInterfaceConversion json
  | PanicAssignmentToNilMap

definition gomapIndex :: "gomap \<Rightarrow> string \<Rightarrow> json" where
  "gomapIndex m key = (case m of NilMap \<Rightarrow> JNull | MapOf entries \<Rightarrow> mapIndex entries key)"

definition gomapAssign :: "gomap \<Rightarrow> string \<Rightarrow> json \<Rightarrow> panic + gomap" where
  "gomapAssign m key v =
     (case m of
        NilMap \<Rightarrow> Inl PanicAssignmentToNilMap
      | MapOf entries \<Rightarrow> Inr (MapOf (fmupd key v entries)))"

text \<open>
  \<^verbatim>\<open>range\<close> over a Go map visits the keys in an order the language leaves open:
  \<open>rng\<close> gives that order for each map.
\<close>

definition gomapRange :: "(object \<Rightarrow> string list) \<Rightarrow> gomap \<Rightarrow> string list" where
  "gomapRange rng m = (case m of NilMap \<Rightarrow> [] | MapOf entries \<Rightarrow> rng entries)"

subsection \<open>checkKeyBeforeMerging\<close>

text \<open>
  The function mutates \<^verbatim>\<open>finalMap\<close> in place; the model takes the map and returns the
  new one.

  \<open>rangeDefaultMapRef\<close> is the loop of lines 71 to 73 over the keys still to visit.
  Each round evaluates the arguments of the call: \<^verbatim>\<open>defaultMapRef[newKey]\<close>,
  \<^verbatim>\<open>changedMapRef[newKey]\<close> and the type assertion on \<^verbatim>\<open>finalMap[key]\<close>, which
  panics when the value is no map. The callee writes into the map object found under
  \<^verbatim>\<open>finalMap[key]\<close>; \<open>mutatedAt\<close> puts the map it returns back at \<^verbatim>\<open>key\<close>. (A
  callee that is given a map returns a map, so the two cases of \<open>mutatedAt\<close> with a nil
  map do not arise.) The decoder builds trees: two map objects share nothing, and the only
  objects of the default tree that line 67 or 78 hangs into the result are never entered
  again, so maps are values here. \<^verbatim>\<open>changedMapRef\<close> is the value the caller passed; in
  \<^verbatim>\<open>MergeCR\<close> it is the very object under \<^verbatim>\<open>finalMap[key]\<close>, and the invariant of
  the calls proved below says that what the loop reads from it at \<^verbatim>\<open>newKey\<close> is what
  that object holds there at that moment.
\<close>

definition mutatedAt :: "gomap \<Rightarrow> string \<Rightarrow> gomap \<Rightarrow> gomap" where
  "mutatedAt finalMap key target =
     (case finalMap of
        NilMap \<Rightarrow> NilMap
      | MapOf entries \<Rightarrow>
          (case target of
             NilMap \<Rightarrow> MapOf entries
           | MapOf written \<Rightarrow> MapOf (fmupd key (JObject written) entries)))"

function checkKeyBeforeMerging ::
    "(object \<Rightarrow> string list) \<Rightarrow> string \<Rightarrow> json \<Rightarrow> json \<Rightarrow> gomap \<Rightarrow> panic + gomap"
  and rangeDefaultMapRef ::
    "(object \<Rightarrow> string list) \<Rightarrow> string list \<Rightarrow> object \<Rightarrow> object \<Rightarrow> string \<Rightarrow> gomap
      \<Rightarrow> panic + gomap"
where
  "checkKeyBeforeMerging rng key defaultMap changedMap finalMap =
     (if defaultMap \<noteq> changedMap then
        (case defaultMap of
           JObject defaultMapRef \<Rightarrow>
             (if changedMap = JNull then gomapAssign finalMap key defaultMap
              else (case changedMap of
                      JObject changedMapRef \<Rightarrow>
                        rangeDefaultMapRef rng (rng defaultMapRef) defaultMapRef changedMapRef
                          key finalMap
                    | _ \<Rightarrow> Inr finalMap))
         | _ \<Rightarrow>
             (if changedMap = JNull then gomapAssign finalMap key defaultMap
              else Inr finalMap))
      else Inr finalMap)"
| "rangeDefaultMapRef rng [] defaultMapRef changedMapRef key finalMap = Inr finalMap"
| "rangeDefaultMapRef rng (newKey # keys) defaultMapRef changedMapRef key finalMap =
     (case gomapIndex finalMap key of
        JObject target \<Rightarrow>
          (case checkKeyBeforeMerging rng newKey (mapIndex defaultMapRef newKey)
                  (mapIndex changedMapRef newKey) (MapOf target) of
             Inl p \<Rightarrow> Inl p
           | Inr target' \<Rightarrow>
               rangeDefaultMapRef rng keys defaultMapRef changedMapRef key
                 (mutatedAt finalMap key target'))
      | other \<Rightarrow> Inl (PanicInterfaceConversion other))"
  by pat_completeness auto
termination
proof (relation "measures
    [\<lambda>x. case x of
        Inl (rng, key, defaultMap, changedMap, finalMap) \<Rightarrow> size defaultMap
      | Inr (rng, keys, defaultMapRef, changedMapRef, key, finalMap) \<Rightarrow>
          size (JObject defaultMapRef),
     \<lambda>x. case x of Inl _ \<Rightarrow> Suc 0 | Inr _ \<Rightarrow> 0,
     \<lambda>x. case x of
        Inl _ \<Rightarrow> 0
      | Inr (rng, keys, defaultMapRef, changedMapRef, key, finalMap) \<Rightarrow> length keys]",
    goal_cases)
  case 1
  show ?case by simp
next
  case 2
  then show ?case by simp
next
  case (3 rng newKey keys defaultMapRef changedMapRef key finalMap target)
  have "size (mapIndex defaultMapRef newKey) < size (JObject defaultMapRef)"
  proof (cases "fmlookup defaultMapRef newKey")
    case None
    then show ?thesis by (simp add: mapIndex_def)
  next
    case (Some v)
    then have "(newKey, v) \<in> fset (fset_of_fmap defaultMapRef)"
      by simp
    then have "Suc (case (newKey, v) of (a, b) \<Rightarrow> size b)
        \<le> (\<Sum>x\<in>fset (fset_of_fmap defaultMapRef). Suc (case x of (a, b) \<Rightarrow> size b))"
      by (intro member_le_sum) auto
    with Some show ?thesis by (simp add: mapIndex_def)
  qed
  then show ?case by simp
next
  case 4
  then show ?case by simp
qed

declare checkKeyBeforeMerging.simps [simp del]

subsection \<open>MergeCR\<close>

text \<open>
  The loop of lines 55 to 57 over the keys of the default document still to visit. The
  changed value is read from \<^verbatim>\<open>changedCRDecoded\<close> as it is when the round begins, and
  the same map is the one written to.
\<close>

fun rangeDefaultCRDecoded ::
    "(object \<Rightarrow> string list) \<Rightarrow> string list \<Rightarrow> gomap \<Rightarrow> gomap \<Rightarrow> panic + gomap" where
  "rangeDefaultCRDecoded rng [] defaultCRDecoded changedCRDecoded = Inr changedCRDecoded"
| "rangeDefaultCRDecoded rng (key # keys) defaultCRDecoded changedCRDecoded =
     (case checkKeyBeforeMerging rng key (gomapIndex defaultCRDecoded key)
             (gomapIndex changedCRDecoded key) changedCRDecoded of
        Inl p \<Rightarrow> Inl p
      | Inr changedCRDecoded' \<Rightarrow>
          rangeDefaultCRDecoded rng keys defaultCRDecoded changedCRDecoded')"

text \<open>
  A byte slice is a \<^typ>\<open>string\<close> (a character is a byte). \<^verbatim>\<open>json.Unmarshal\<close> is a
  parameter: given the text it returns what the variable passed to it, an empty map
  before the call, holds afterwards, and the error if there is one. \<^verbatim>\<open>MergeCR\<close> logs
  the error and goes on with the map.
\<close>

type_synonym bytes = string

datatype unmarshal_error = SyntaxError | UnmarshalTypeError

type_synonym unmarshal = "bytes \<Rightarrow> gomap \<times> unmarshal_error option"

definition MergeCR ::
    "(object \<Rightarrow> string list) \<Rightarrow> unmarshal \<Rightarrow> bytes \<Rightarrow> bytes \<Rightarrow> panic + gomap" where
  "MergeCR rng json_Unmarshal defaultCR changedCR =
     (if length defaultCR = 0 \<and> length changedCR = 0 then Inr (MapOf fmempty)
      else if length defaultCR \<noteq> 0 \<and> length changedCR = 0 then
        (case json_Unmarshal defaultCR of
           (defaultCRDecoded, defaultCRUnmarshalErr) \<Rightarrow> Inr defaultCRDecoded)
      else if length defaultCR = 0 \<and> length changedCR \<noteq> 0 then
        (case json_Unmarshal changedCR of
           (changedCRDecoded, changedCRUnmarshalErr) \<Rightarrow> Inr changedCRDecoded)
      else
        (case json_Unmarshal defaultCR of
           (defaultCRDecoded, defaultCRUnmarshalErr) \<Rightarrow>
             (case json_Unmarshal changedCR of
                (changedCRDecoded, changedCRUnmarshalErr) \<Rightarrow>
                  rangeDefaultCRDecoded rng (gomapRange rng defaultCRDecoded) defaultCRDecoded
                    changedCRDecoded)))"

text \<open>
  What \<^verbatim>\<open>range\<close> promises of the order: every key of the map once. The keys in
  ascending order are one such order. (The result does not depend on the order:
  \<open>MergeCR_order\<close> below.)
\<close>

definition rangeOrder :: "(object \<Rightarrow> string list) \<Rightarrow> bool" where
  "rangeOrder rng = (\<forall>m. distinct (rng m) \<and> set (rng m) = fmdom' m)"

definition sortedKeys :: "object \<Rightarrow> string list" where
  "sortedKeys m = sorted_list_of_fset (fmdom m)"

subsection \<open>The calls of checkKeyBeforeMerging\<close>

text \<open>
  The calls that one call of \<^verbatim>\<open>checkKeyBeforeMerging\<close> makes, itself first, each with
  its four arguments, in the order in which they happen. The two functions follow
  \<open>checkKeyBeforeMerging\<close> and \<open>rangeDefaultMapRef\<close> branch by branch; a loop that
  panics makes no further call.
\<close>

type_synonym call = "string \<times> json \<times> json \<times> gomap"

function callsOfCheckKey ::
    "(object \<Rightarrow> string list) \<Rightarrow> string \<Rightarrow> json \<Rightarrow> json \<Rightarrow> gomap \<Rightarrow> call list"
  and callsOfRange ::
    "(object \<Rightarrow> string list) \<Rightarrow> string list \<Rightarrow> object \<Rightarrow> object \<Rightarrow> string \<Rightarrow> gomap
      \<Rightarrow> call list"
where
  "callsOfCheckKey rng key defaultMap changedMap finalMap =
     (key, defaultMap, changedMap, finalMap) #
     (if defaultMap \<noteq> changedMap then
        (case defaultMap of
           JObject defaultMapRef \<Rightarrow>
             (if changedMap = JNull then []
              else (case changedMap of
                      JObject changedMapRef \<Rightarrow>
                        callsOfRange rng (rng defaultMapRef) defaultMapRef changedMapRef
                          key finalMap
                    | _ \<Rightarrow> []))
         | _ \<Rightarrow> [])
      else [])"
| "callsOfRange rng [] defaultMapRef changedMapRef key finalMap = []"
| "callsOfRange rng (newKey # keys) defaultMapRef changedMapRef key finalMap =
     (case gomapIndex finalMap key of
        JObject target \<Rightarrow>
          callsOfCheckKey rng newKey (mapIndex defaultMapRef newKey)
            (mapIndex changedMapRef newKey) (MapOf target) @
          (case checkKeyBeforeMerging rng newKey (mapIndex defaultMapRef newKey)
                  (mapIndex changedMapRef newKey) (MapOf target) of
             Inl p \<Rightarrow> []
           | Inr target' \<Rightarrow>
               callsOfRange rng keys defaultMapRef changedMapRef key
                 (mutatedAt finalMap key target'))
      | other \<Rightarrow> [])"
  by pat_completeness auto
termination
proof (relation "measures
    [\<lambda>x. case x of
        Inl (rng, key, defaultMap, changedMap, finalMap) \<Rightarrow> size defaultMap
      | Inr (rng, keys, defaultMapRef, changedMapRef, key, finalMap) \<Rightarrow>
          size (JObject defaultMapRef),
     \<lambda>x. case x of Inl _ \<Rightarrow> Suc 0 | Inr _ \<Rightarrow> 0,
     \<lambda>x. case x of
        Inl _ \<Rightarrow> 0
      | Inr (rng, keys, defaultMapRef, changedMapRef, key, finalMap) \<Rightarrow> length keys]",
    goal_cases)
  case 1
  show ?case by simp
next
  case 2
  then show ?case by simp
next
  case (3 rng newKey keys defaultMapRef changedMapRef key finalMap target)
  have "size (mapIndex defaultMapRef newKey) < size (JObject defaultMapRef)"
  proof (cases "fmlookup defaultMapRef newKey")
    case None
    then show ?thesis by (simp add: mapIndex_def)
  next
    case (Some v)
    then have "(newKey, v) \<in> fset (fset_of_fmap defaultMapRef)"
      by simp
    then have "Suc (case (newKey, v) of (a, b) \<Rightarrow> size b)
        \<le> (\<Sum>x\<in>fset (fset_of_fmap defaultMapRef). Suc (case x of (a, b) \<Rightarrow> size b))"
      by (intro member_le_sum) auto
    with Some show ?thesis by (simp add: mapIndex_def)
  qed
  then show ?case by simp
next
  case 4
  then show ?case by simp
qed

declare callsOfCheckKey.simps [simp del]

fun callsOfRangeDefaultCR ::
    "(object \<Rightarrow> string list) \<Rightarrow> string list \<Rightarrow> gomap \<Rightarrow> gomap \<Rightarrow> call list" where
  "callsOfRangeDefaultCR rng [] defaultCRDecoded changedCRDecoded = []"
| "callsOfRangeDefaultCR rng (key # keys) defaultCRDecoded changedCRDecoded =
     callsOfCheckKey rng key (gomapIndex defaultCRDecoded key)
       (gomapIndex changedCRDecoded key) changedCRDecoded @
     (case checkKeyBeforeMerging rng key (gomapIndex defaultCRDecoded key)
             (gomapIndex changedCRDecoded key) changedCRDecoded of
        Inl p \<Rightarrow> []
      | Inr changedCRDecoded' \<Rightarrow>
          callsOfRangeDefaultCR rng keys defaultCRDecoded changedCRDecoded')"

text \<open>The calls of \<^verbatim>\<open>MergeCR\<close>: none unless both texts are non-empty.\<close>

definition callsOfMergeCR ::
    "(object \<Rightarrow> string list) \<Rightarrow> unmarshal \<Rightarrow> bytes \<Rightarrow> bytes \<Rightarrow> call list" where
  "callsOfMergeCR rng json_Unmarshal defaultCR changedCR =
     (if length defaultCR = 0 \<or> length changedCR = 0 then []
      else
        (case json_Unmarshal defaultCR of
           (defaultCRDecoded, defaultCRUnmarshalErr) \<Rightarrow>
             (case json_Unmarshal changedCR of
                (changedCRDecoded, changedCRUnmarshalErr) \<Rightarrow>
                  callsOfRangeDefaultCR rng (gomapRange rng defaultCRDecoded) defaultCRDecoded
                    changedCRDecoded)))"

text \<open>
  The invariant of a call: the entry of \<^verbatim>\<open>finalMap\<close> at \<^verbatim>\<open>key\<close> is the value passed
  as \<^verbatim>\<open>changedMap\<close>.
\<close>

definition callInvariant :: "call \<Rightarrow> bool" where
  "callInvariant c = (case c of (key, defaultMap, changedMap, finalMap) \<Rightarrow>
      gomapIndex finalMap key = changedMap)"

subsection \<open>Values inside a document, and example documents\<close>

text \<open>
  The value found by following a path of keys from a value, each step a Go map read; a
  step into something that is no map finds nothing.
\<close>

fun jsonAt :: "json \<Rightarrow> string list \<Rightarrow> json" where
  "jsonAt v [] = v"
| "jsonAt v (key # path) = (case v of JObject m \<Rightarrow> jsonAt (mapIndex m key) path | _ \<Rightarrow> JNull)"

text \<open>
  Some JSON texts with what \<^verbatim>\<open>json.Unmarshal\<close> decodes them to, and a decoder that
  knows these texts only and takes any other text for malformed, leaving the map empty.
  It stands for \<^verbatim>\<open>json.Unmarshal\<close> where a property is run on concrete documents.
\<close>

definition exampleDocuments :: "(bytes \<times> gomap) list" where
  \<open>exampleDocuments =
     [(''null'', NilMap),
      (''{}'', MapOf fmempty),
      (''{"a":null}'', MapOf (fmap_of_list [(''a'', JNull)])),
      (''{"a":1}'', MapOf (fmap_of_list [(''a'', JNumber 1)])),
      (''{"a":{"x":1}}'',
         MapOf (fmap_of_list [(''a'', JObject (fmap_of_list [(''x'', JNumber 1)]))])),
      (''{"a":{"z":7}}'',
         MapOf (fmap_of_list [(''a'', JObject (fmap_of_list [(''z'', JNumber 7)]))])),
      (''{"a":"scalar"}'', MapOf (fmap_of_list [(''a'', JString ''scalar'')])),
      (''{"a":{"x":1,"y":2},"b":5}'',
         MapOf (fmap_of_list
           [(''a'', JObject (fmap_of_list [(''x'', JNumber 1), (''y'', JNumber 2)])),
            (''b'', JNumber 5)])),
      (''{"a":{"x":9},"c":"kept"}'',
         MapOf (fmap_of_list
           [(''a'', JObject (fmap_of_list [(''x'', JNumber 9)])),
            (''c'', JString ''kept'')])),
      (''{"a":{"x":9,"y":2},"b":5,"c":"kept"}'',
         MapOf (fmap_of_list
           [(''a'', JObject (fmap_of_list [(''x'', JNumber 9), (''y'', JNumber 2)])),
            (''b'', JNumber 5),
            (''c'', JString ''kept'')]))]\<close>

definition exampleUnmarshal :: unmarshal where
  "exampleUnmarshal data =
     (case map_of exampleDocuments data of
        Some m \<Rightarrow> (m, None)
      | None \<Rightarrow> (MapOf fmempty, Some SyntaxError))"

section \<open>Properties of the version comparison\<close>

lemma strconv_Atoi_error: "strconv_Atoi s = Inl e \<Longrightarrow> \<exists>r. e = NumError s r"
  by (auto simp: strconv_Atoi_def Let_def split: if_splits sum.splits)

lemma compareLoop_step:
  "index < length v1Slice \<Longrightarrow> index < length v2Slice \<Longrightarrow>
   strconv_Atoi (v1Slice ! index) = Inr n \<Longrightarrow> strconv_Atoi (v2Slice ! index) = Inr n \<Longrightarrow>
   compareLoop v1Slice v2Slice index = compareLoop v1Slice v2Slice (Suc index)"
  by (subst compareLoop.simps) simp

lemma compareLoop_comparedAt:
  "comparedAt v1Slice v2Slice i \<Longrightarrow>
   compareLoop v1Slice v2Slice 0 = compareLoop v1Slice v2Slice i"
proof (induction i)
  case 0
  show ?case by simp
next
  case (Suc i)
  from Suc.prems have c: "comparedAt v1Slice v2Slice i"
    by (simp add: comparedAt_def)
  from Suc.prems obtain n where "i < length v1Slice" "i < length v2Slice"
      "strconv_Atoi (v1Slice ! i) = Inr n" "strconv_Atoi (v2Slice ! i) = Inr n"
    by (auto simp: comparedAt_def)
  then have "compareLoop v1Slice v2Slice i = compareLoop v1Slice v2Slice (Suc i)"
    by (rule compareLoop_step)
  with Suc.IH [OF c] show ?case by simp
qed

lemma compareLoop_take:
  "length v1Slice \<le> length v2Slice \<Longrightarrow>
   compareLoop v1Slice (take (length v1Slice) v2Slice) index = compareLoop v1Slice v2Slice index"
proof (induction v1Slice v2Slice index rule: compareLoop.induct)
  case (1 v1Slice v2Slice index)
  show ?case
  proof (cases "index < length v1Slice")
    case False
    then show ?thesis by (simp add: compareLoop.simps)
  next
    case True
    show ?thesis
    proof (cases "strconv_Atoi (v1Slice ! index)")
      case (Inl e)
      with True show ?thesis by (simp add: compareLoop.simps [of _ _ index])
    next
      case a: (Inr a)
      show ?thesis
      proof (cases "strconv_Atoi (v2Slice ! index)")
        case (Inl e)
        with True a "1.prems" show ?thesis by (simp add: compareLoop.simps [of _ _ index])
      next
        case b: (Inr b)
        from True "1.prems" have n: "\<not> length v2Slice \<le> index" by simp
        show ?thesis
        proof (cases "a = b")
          case eq: True
          with True a b n "1.prems" "1.IH" [OF True a n b _ _ "1.prems"]
          show ?thesis by (simp add: compareLoop.simps [of _ _ index])
        next
          case False
          with True a b n "1.prems" show ?thesis by (simp add: compareLoop.simps [of _ _ index])
        qed
      qed
    qed
  qed
qed

lemma compareLoop_no_panic:
  "length v1Slice \<le> length v2Slice \<Longrightarrow>
   compareLoop v1Slice v2Slice index \<noteq> Inl (PanicIndexOutOfRange i n)"
proof (induction v1Slice v2Slice index rule: compareLoop.induct)
  case (1 v1Slice v2Slice index)
  show ?case
  proof (cases "index < length v1Slice")
    case False
    then show ?thesis by (simp add: compareLoop.simps)
  next
    case True
    with "1.prems" have n: "\<not> length v2Slice \<le> index" by simp
    show ?thesis
    proof (cases "strconv_Atoi (v1Slice ! index)")
      case (Inl e)
      with True strconv_Atoi_error [OF Inl] show ?thesis
        by (auto simp: compareLoop.simps [of _ _ index])
    next
      case a: (Inr a)
      show ?thesis
      proof (cases "strconv_Atoi (v2Slice ! index)")
        case (Inl e)
        with True a n strconv_Atoi_error [OF Inl] show ?thesis
          by (auto simp: compareLoop.simps [of _ _ index])
      next
        case b: (Inr b)
        show ?thesis
        proof (cases "a = b")
          case eq: True
          with True a b n "1.IH" [OF True a n b _ _ "1.prems"]
          show ?thesis by (simp add: compareLoop.simps [of _ _ index])
        next
          case False
          with True a b n show ?thesis by (simp add: compareLoop.simps [of _ _ index])
        qed
      qed
    qed
  qed
qed

lemma compareLoop_panic_where:
  "compareLoop v1Slice v2Slice index = Inl (PanicIndexOutOfRange i n) \<Longrightarrow>
   n = length v2Slice \<and> n \<le> i \<and> i < length v1Slice \<and> index \<le> i"
proof (induction v1Slice v2Slice index rule: compareLoop.induct)
  case (1 v1Slice v2Slice index)
  note r = "1.prems" [unfolded compareLoop.simps [of v1Slice v2Slice index]]
  from r have lt: "index < length v1Slice"
    by (simp split: if_splits)
  show ?case
  proof (cases "strconv_Atoi (v1Slice ! index)")
    case (Inl e)
    with r lt strconv_Atoi_error [OF Inl] show ?thesis by auto
  next
    case a: (Inr a)
    show ?thesis
    proof (cases "length v2Slice \<le> index")
      case True
      with r lt a show ?thesis by simp
    next
      case False
      show ?thesis
      proof (cases "strconv_Atoi (v2Slice ! index)")
        case (Inl e)
        with r lt a False strconv_Atoi_error [OF Inl] show ?thesis by auto
      next
        case b: (Inr b)
        show ?thesis
        proof (cases "a = b")
          case True
          with r lt a b False
          have "compareLoop v1Slice v2Slice (index + 1) = Inl (PanicIndexOutOfRange i n)"
            by simp
          from "1.IH" [OF lt a False b _ _ this] True show ?thesis by simp
        next
          case ne: False
          with r lt a b False show ?thesis by (simp split: if_splits)
        qed
      qed
    qed
  qed
qed

lemma compareLoop_panic_reached:
  assumes "length v2Slice < length v1Slice" and "comparedAt v1Slice v2Slice (length v2Slice)"
    and "strconv_Atoi (v1Slice ! length v2Slice) = Inr n"
  shows "compareLoop v1Slice v2Slice 0 = Inl (PanicIndexOutOfRange (length v2Slice) (length v2Slice))"
proof -
  from compareLoop_comparedAt [OF assms(2)]
  have "compareLoop v1Slice v2Slice 0 = compareLoop v1Slice v2Slice (length v2Slice)" .
  also from assms(1,3) have "\<dots> = Inl (PanicIndexOutOfRange (length v2Slice) (length v2Slice))"
    by (subst compareLoop.simps) simp
  finally show ?thesis .
qed


text \<open>
  When \<^verbatim>\<open>v2\<close> holds no \<^verbatim>\<open>v\<close>, line 153 resets \<^verbatim>\<open>v1Cut\<close> and leaves \<^verbatim>\<open>v2Cut\<close>
  empty, so the lists compared are \<open>["0", "0"]\<close> and \<open>["", "0"]\<close> whatever \<^verbatim>\<open>v1\<close> is,
  and the first component of \<^verbatim>\<open>v2\<close> fails to parse.
\<close>

lemma normalizedSlices_no_v_in_v2:
  "CHR ''v'' \<notin> set v2 \<Longrightarrow> normalizedSlices v1 v2 = ([''0'', ''0''], ['''', ''0''])"
  by (simp add: normalizedSlices_def strings_Cut_def Let_def split: prod.splits)

lemma CompareChannelVersion_no_v_in_v2:
  "CHR ''v'' \<notin> set v2 \<Longrightarrow> CompareChannelVersion v1 v2 = Inl (NumError [] ErrSyntax)"
  by (simp add: CompareChannelVersion_def normalizedSlices_no_v_in_v2 compareLoop.simps
      strconv_Atoi_def is_digit_def digit_value_def)

text \<open>
  C2. Each input would be normalised on its own, an input without \<^verbatim>\<open>v\<close> standing for
  \<open>0.0\<close>. The example of the claim, \<open>compare("abc", "v1.0") = false\<close>, holds. With the
  text without \<^verbatim>\<open>v\<close> in second place the code does something else:
  \<open>compare("v2.0", "abc")\<close> does not compare \<open>2.0\<close> with \<open>0.0\<close> (which would give
  \<open>true\<close>); the lists compared are \<open>["0", "0"]\<close> and \<open>["", "0"]\<close> and the call returns
  the parse error of the empty component.
\<close>

theorem CompareChannelVersion_second_without_v:
  "CompareChannelVersion ''abc'' ''v1.0'' = Inr False \<and>
   normalizedSlices ''v2.0'' ''abc'' = ([''0'', ''0''], ['''', ''0'']) \<and>
   CompareChannelVersion ''v2.0'' ''abc'' = Inl (NumError [] ErrSyntax) \<and>
   compareLoop [''2'', ''0''] [''0'', ''0''] 0 = Inr True"
  by code_simp

text \<open>
  C3. The loop runs over the component list of \<^verbatim>\<open>v1\<close>. When the list of \<^verbatim>\<open>v2\<close> is
  at least as long, the components of \<^verbatim>\<open>v2\<close> beyond the length of \<^verbatim>\<open>v1\<close>'s list do not
  matter (the result is the one for \<^verbatim>\<open>v2\<close>'s list cut to that length) and no read is
  out of range. A read out of range happens only at an index of \<^verbatim>\<open>v1\<close>'s list past the
  end of \<^verbatim>\<open>v2\<close>'s, and it does happen when \<^verbatim>\<open>v2\<close>'s list is shorter, the shared
  components are equal and the next component of \<^verbatim>\<open>v1\<close> is an integer, as for
  \<open>compare("v1.0.1", "v1.0")\<close>.
\<close>

theorem CompareChannelVersion_loop_over_v1:
  "(\<forall>v1 v2 v1Slice v2Slice.
      normalizedSlices v1 v2 = (v1Slice, v2Slice) \<longrightarrow>
      (length v1Slice \<le> length v2Slice \<longrightarrow>
         CompareChannelVersion v1 v2 = compareLoop v1Slice (take (length v1Slice) v2Slice) 0 \<and>
         (\<forall>i n. CompareChannelVersion v1 v2 \<noteq> Inl (PanicIndexOutOfRange i n))) \<and>
      (\<forall>i n. CompareChannelVersion v1 v2 = Inl (PanicIndexOutOfRange i n) \<longrightarrow>
         n = length v2Slice \<and> n \<le> i \<and> i < length v1Slice) \<and>
      (length v2Slice < length v1Slice \<and> comparedAt v1Slice v2Slice (length v2Slice) \<and>
       (\<exists>m. strconv_Atoi (v1Slice ! length v2Slice) = Inr m) \<longrightarrow>
         CompareChannelVersion v1 v2 =
           Inl (PanicIndexOutOfRange (length v2Slice) (length v2Slice)))) \<and>
   normalizedSlices ''v1.0.1'' ''v1.0'' = ([''1'', ''0'', ''1''], [''1'', ''0'']) \<and>
   CompareChannelVersion ''v1.0.1'' ''v1.0'' = Inl (PanicIndexOutOfRange 2 2)"
proof -
  have general: "(length v1Slice \<le> length v2Slice \<longrightarrow>
         CompareChannelVersion v1 v2 = compareLoop v1Slice (take (length v1Slice) v2Slice) 0 \<and>
         (\<forall>i n. CompareChannelVersion v1 v2 \<noteq> Inl (PanicIndexOutOfRange i n))) \<and>
      (\<forall>i n. CompareChannelVersion v1 v2 = Inl (PanicIndexOutOfRange i n) \<longrightarrow>
         n = length v2Slice \<and> n \<le> i \<and> i < length v1Slice) \<and>
      (length v2Slice < length v1Slice \<and> comparedAt v1Slice v2Slice (length v2Slice) \<and>
       (\<exists>m. strconv_Atoi (v1Slice ! length v2Slice) = Inr m) \<longrightarrow>
         CompareChannelVersion v1 v2 =
           Inl (PanicIndexOutOfRange (length v2Slice) (length v2Slice)))"
    if s: "normalizedSlices v1 v2 = (v1Slice, v2Slice)" for v1 v2 v1Slice v2Slice
  proof -
    from s have c: "CompareChannelVersion v1 v2 = compareLoop v1Slice v2Slice 0"
      by (simp add: CompareChannelVersion_def)
    have longer: "CompareChannelVersion v1 v2 =
          compareLoop v1Slice (take (length v1Slice) v2Slice) 0 \<and>
        (\<forall>i n. CompareChannelVersion v1 v2 \<noteq> Inl (PanicIndexOutOfRange i n))"
      if "length v1Slice \<le> length v2Slice"
      using that c by (simp add: compareLoop_take compareLoop_no_panic)
    have place: "n = length v2Slice \<and> n \<le> i \<and> i < length v1Slice"
      if "CompareChannelVersion v1 v2 = Inl (PanicIndexOutOfRange i n)" for i n
      using compareLoop_panic_where [of v1Slice v2Slice 0 i n] that c by simp
    have shorter: "CompareChannelVersion v1 v2 =
           Inl (PanicIndexOutOfRange (length v2Slice) (length v2Slice))"
      if "length v2Slice < length v1Slice \<and> comparedAt v1Slice v2Slice (length v2Slice) \<and>
       (\<exists>m. strconv_Atoi (v1Slice ! length v2Slice) = Inr m)"
      using that c by (auto simp: compareLoop_panic_reached)
    from longer place shorter show ?thesis by blast
  qed
  have "normalizedSlices ''v1.0.1'' ''v1.0'' = ([''1'', ''0'', ''1''], [''1'', ''0''])"
    by code_simp
  moreover have "CompareChannelVersion ''v1.0.1'' ''v1.0'' = Inl (PanicIndexOutOfRange 2 2)"
    by code_simp
  ultimately show ?thesis using general by blast
qed

theorem CompareChannelVersion_loop_over_v1_witness:
  "normalizedSlices ''v1.0'' ''v1.0.7'' = ([''1'', ''0''], [''1'', ''0'', ''7'']) \<and>
   length [''1'', ''0''] \<le> length [''1'', ''0'', ''7''] \<and>
   CompareChannelVersion ''v1.0'' ''v1.0.7'' =
     compareLoop [''1'', ''0''] (take (length [''1'', ''0'']) [''1'', ''0'', ''7'']) 0 \<and>
   CompareChannelVersion ''v1.0'' ''v1.0.7'' = Inr False \<and>
   (\<forall>i n. CompareChannelVersion ''v1.0'' ''v1.0.7'' \<noteq> Inl (PanicIndexOutOfRange i n)) \<and>
   normalizedSlices ''v1.0.1'' ''v1.0'' = ([''1'', ''0'', ''1''], [''1'', ''0'']) \<and>
   length [''1'', ''0''] < length [''1'', ''0'', ''1''] \<and>
   comparedAt [''1'', ''0'', ''1''] [''1'', ''0''] (length [''1'', ''0'']) \<and>
   strconv_Atoi ([''1'', ''0'', ''1''] ! length [''1'', ''0'']) = Inr 1 \<and>
   CompareChannelVersion ''v1.0.1'' ''v1.0'' =
     Inl (PanicIndexOutOfRange (length [''1'', ''0'']) (length [''1'', ''0'']))"
proof -
  note inst = CompareChannelVersion_loop_over_v1 [THEN conjunct1, rule_format]
  have h: "normalizedSlices ''v1.0'' ''v1.0.7'' = ([''1'', ''0''], [''1'', ''0'', ''7''])"
    by code_simp
  have l: "length [''1'', ''0''] \<le> length [''1'', ''0'', ''7'']"
    by simp
  have v: "CompareChannelVersion ''v1.0'' ''v1.0.7'' = Inr False"
    by code_simp
  from inst [OF h, THEN conjunct1, rule_format, OF l]
  have first: "CompareChannelVersion ''v1.0'' ''v1.0.7'' =
          compareLoop [''1'', ''0''] (take (length [''1'', ''0'']) [''1'', ''0'', ''7'']) 0 \<and>
        (\<forall>i n. CompareChannelVersion ''v1.0'' ''v1.0.7'' \<noteq> Inl (PanicIndexOutOfRange i n))"
    by blast
  have h2: "normalizedSlices ''v1.0.1'' ''v1.0'' = ([''1'', ''0'', ''1''], [''1'', ''0''])"
    by code_simp
  have l2: "length [''1'', ''0''] < length [''1'', ''0'', ''1'']"
    by simp
  have a0: "strconv_Atoi ''0'' = Inr 0" and a1: "strconv_Atoi ''1'' = Inr 1"
    by code_simp+
  have c2: "comparedAt [''1'', ''0'', ''1''] [''1'', ''0''] (length [''1'', ''0''])"
    by (simp add: comparedAt_def a0 a1 less_Suc_eq)
  have p2: "strconv_Atoi ([''1'', ''0'', ''1''] ! length [''1'', ''0'']) = Inr 1"
    by (simp add: a1)
  from inst [OF h2, THEN conjunct2, THEN conjunct2, rule_format] l2 c2 p2
  have second: "CompareChannelVersion ''v1.0.1'' ''v1.0'' =
     Inl (PanicIndexOutOfRange (length [''1'', ''0'']) (length [''1'', ''0'']))"
    by blast
  from h l v first h2 l2 c2 p2 second show ?thesis by blast
qed

text \<open>
  C4. A component that the loop compares and that is not an integer ends the call with
  the parse error of that component, and with no ordering: the component of \<^verbatim>\<open>v1\<close> is
  parsed first, then the one of \<^verbatim>\<open>v2\<close>. \<open>compare("v1.x", "v1.0")\<close> fails on \<open>"x"\<close>.
\<close>

theorem CompareChannelVersion_parse_error:
  "(\<forall>v1 v2 v1Slice v2Slice i e.
      normalizedSlices v1 v2 = (v1Slice, v2Slice) \<and> comparedAt v1Slice v2Slice i \<and>
      (strconv_Atoi (v1Slice ! i) = Inl e \<or>
       (\<exists>n. strconv_Atoi (v1Slice ! i) = Inr n) \<and> i < length v2Slice \<and>
       strconv_Atoi (v2Slice ! i) = Inl e) \<longrightarrow>
      CompareChannelVersion v1 v2 = Inl e \<and>
      (\<exists>r. e = NumError (v1Slice ! i) r \<or> e = NumError (v2Slice ! i) r)) \<and>
   CompareChannelVersion ''v1.x'' ''v1.0'' = Inl (NumError ''x'' ErrSyntax)"
proof (intro conjI allI impI)
  fix v1 v2 v1Slice v2Slice i e
  assume a: "normalizedSlices v1 v2 = (v1Slice, v2Slice) \<and> comparedAt v1Slice v2Slice i \<and>
      (strconv_Atoi (v1Slice ! i) = Inl e \<or>
       (\<exists>n. strconv_Atoi (v1Slice ! i) = Inr n) \<and> i < length v2Slice \<and>
       strconv_Atoi (v2Slice ! i) = Inl e)"
  then have i: "i < length v1Slice"
    by (simp add: comparedAt_def)
  from a have "CompareChannelVersion v1 v2 = compareLoop v1Slice v2Slice i"
    by (simp add: CompareChannelVersion_def compareLoop_comparedAt)
  also from a i have "\<dots> = Inl e"
    by (subst compareLoop.simps) auto
  finally show "CompareChannelVersion v1 v2 = Inl e" .
  from a show "\<exists>r. e = NumError (v1Slice ! i) r \<or> e = NumError (v2Slice ! i) r"
    by (auto dest: strconv_Atoi_error)
next
  show "CompareChannelVersion ''v1.x'' ''v1.0'' = Inl (NumError ''x'' ErrSyntax)"
    by code_simp
qed

theorem CompareChannelVersion_parse_error_witness:
  "normalizedSlices ''v1.2'' ''v1.y'' = ([''1'', ''2''], [''1'', ''y'']) \<and>
   comparedAt [''1'', ''2''] [''1'', ''y''] 1 \<and>
   strconv_Atoi ([''1'', ''2''] ! 1) = Inr 2 \<and> (1::nat) < length [''1'', ''y''] \<and>
   strconv_Atoi ([''1'', ''y''] ! 1) = Inl (NumError ''y'' ErrSyntax) \<and>
   CompareChannelVersion ''v1.2'' ''v1.y'' = Inl (NumError ''y'' ErrSyntax)"
proof -
  have h: "normalizedSlices ''v1.2'' ''v1.y'' = ([''1'', ''2''], [''1'', ''y''])"
    by code_simp
  have a1: "strconv_Atoi ''1'' = Inr 1" and a2: "strconv_Atoi ''2'' = Inr 2"
    and ay: "strconv_Atoi ''y'' = Inl (NumError ''y'' ErrSyntax)"
    by code_simp+
  have c: "comparedAt [''1'', ''2''] [''1'', ''y''] 1"
    by (simp add: comparedAt_def a1)
  from h c a2 ay CompareChannelVersion_parse_error [THEN conjunct1, rule_format,
      where ?v1.0 = "''v1.2''" and ?v2.0 = "''v1.y''"
        and v1Slice = "[''1'', ''2'']" and v2Slice = "[''1'', ''y'']"
        and i = 1 and e = "NumError ''y'' ErrSyntax"]
  have "CompareChannelVersion ''v1.2'' ''v1.y'' = Inl (NumError ''y'' ErrSyntax)"
    by simp
  with h c a2 ay show ?thesis by simp
qed

section \<open>Properties of the merge\<close>

subsection \<open>Maps, frames and the loops\<close>

lemma mapIndex_fmupd: "mapIndex (fmupd k v m) k' = (if k = k' then v else mapIndex m k')"
  by (simp add: mapIndex_def)

lemma mapIndex_not_null: "mapIndex m k \<noteq> JNull \<Longrightarrow> fmlookup m k = Some (mapIndex m k)"
  by (simp add: mapIndex_def split: option.splits)

lemma mapIndex_Some: "fmlookup m k = Some v \<Longrightarrow> mapIndex m k = v"
  by (simp add: mapIndex_def)

lemma mapIndex_cong: "fmlookup m k = fmlookup m' k \<Longrightarrow> mapIndex m k = mapIndex m' k"
  by (simp add: mapIndex_def)

lemma fmupd_known: "fmlookup m k = Some v \<Longrightarrow> fmupd k v m = m"
  by (rule fmap_ext) auto

lemma gomapIndex_simps [simp]:
  "gomapIndex NilMap key = JNull"
  "gomapIndex (MapOf m) key = mapIndex m key"
  by (simp_all add: gomapIndex_def)

lemma gomapAssign_simps [simp]:
  "gomapAssign NilMap key v = Inl PanicAssignmentToNilMap"
  "gomapAssign (MapOf m) key v = Inr (MapOf (fmupd key v m))"
  by (simp_all add: gomapAssign_def)

lemma gomapRange_simps [simp]:
  "gomapRange rng NilMap = []"
  "gomapRange rng (MapOf m) = rng m"
  by (simp_all add: gomapRange_def)

lemma mutatedAt_MapOf [simp]:
  "mutatedAt (MapOf m) key (MapOf t) = MapOf (fmupd key (JObject t) m)"
  by (simp add: mutatedAt_def)

lemma size_mapIndex: "size (mapIndex m k) < size (JObject m)"
proof (cases "fmlookup m k")
  case None
  then show ?thesis by (simp add: mapIndex_def)
next
  case (Some v)
  then have "(k, v) \<in> fset (fset_of_fmap m)"
    by simp
  then have "Suc (case (k, v) of (a, b) \<Rightarrow> size b)
      \<le> (\<Sum>x\<in>fset (fset_of_fmap m). Suc (case x of (a, b) \<Rightarrow> size b))"
    by (intro member_le_sum) auto
  with Some show ?thesis by (simp add: mapIndex_def)
qed

text \<open>
  A call on a map that is not nil returns a map that is not nil, and writes at its key
  only.
\<close>

lemma frame_both:
  "checkKeyBeforeMerging rng key dv cv finalMap = Inr r \<longrightarrow> finalMap = MapOf fm \<longrightarrow>
     (\<exists>fm'. r = MapOf fm' \<and> (\<forall>k. k \<noteq> key \<longrightarrow> fmlookup fm' k = fmlookup fm k))"
  "rangeDefaultMapRef rng ks dm cm key finalMap = Inr r \<longrightarrow> finalMap = MapOf fm \<longrightarrow>
     (\<exists>fm'. r = MapOf fm' \<and> (\<forall>k. k \<noteq> key \<longrightarrow> fmlookup fm' k = fmlookup fm k))"
proof (induction rng key dv cv finalMap and rng ks dm cm key finalMap arbitrary: r fm and r fm
    rule: checkKeyBeforeMerging_rangeDefaultMapRef.induct)
  case (1 rng key defaultMap changedMap finalMap)
  show ?case
  proof (intro impI)
    assume c: "checkKeyBeforeMerging rng key defaultMap changedMap finalMap = Inr r"
      and f: "finalMap = MapOf fm"
    show "\<exists>fm'. r = MapOf fm' \<and> (\<forall>k. k \<noteq> key \<longrightarrow> fmlookup fm' k = fmlookup fm k)"
    proof (cases "\<exists>dm cm. defaultMap = JObject dm \<and> changedMap = JObject cm
        \<and> defaultMap \<noteq> changedMap")
      case True
      then obtain dm cm where d: "defaultMap \<noteq> changedMap" "defaultMap = JObject dm"
          "changedMap \<noteq> JNull" "changedMap = JObject cm"
        by auto
      with c have "rangeDefaultMapRef rng (rng dm) dm cm key finalMap = Inr r"
        by (simp add: checkKeyBeforeMerging.simps)
      with "1.IH" [OF d] f show ?thesis by blast
    next
      case False
      with c f show ?thesis
        by (cases defaultMap; cases changedMap)
          (auto simp: checkKeyBeforeMerging.simps split: if_splits)
    qed
  qed
next
  case (2 rng defaultMapRef changedMapRef key finalMap)
  show ?case by simp
next
  case (3 rng newKey keys defaultMapRef changedMapRef key finalMap)
  show ?case
  proof (intro impI)
    assume l: "rangeDefaultMapRef rng (newKey # keys) defaultMapRef changedMapRef key finalMap
        = Inr r"
      and f: "finalMap = MapOf fm"
    from l obtain target where t: "gomapIndex finalMap key = JObject target"
      by (cases "gomapIndex finalMap key") simp_all
    with l obtain target' where
      c: "checkKeyBeforeMerging rng newKey (mapIndex defaultMapRef newKey)
            (mapIndex changedMapRef newKey) (MapOf target) = Inr target'"
      and l': "rangeDefaultMapRef rng keys defaultMapRef changedMapRef key
                (mutatedAt finalMap key target') = Inr r"
      by (cases "checkKeyBeforeMerging rng newKey (mapIndex defaultMapRef newKey)
            (mapIndex changedMapRef newKey) (MapOf target)") simp_all
    from "3.IH"(1) [OF t] c obtain t' where t': "target' = MapOf t'"
      by blast
    with f have m: "mutatedAt finalMap key target' = MapOf (fmupd key (JObject t') fm)"
      by simp
    from "3.IH"(2) [OF t c] l' m obtain fm' where "r = MapOf fm'"
      and "\<forall>k. k \<noteq> key \<longrightarrow> fmlookup fm' k = fmlookup (fmupd key (JObject t') fm) k"
      by blast
    then show "\<exists>fm'. r = MapOf fm' \<and> (\<forall>k. k \<noteq> key \<longrightarrow> fmlookup fm' k = fmlookup fm k)"
      by auto
  qed
qed

lemma checkKeyBeforeMerging_frame:
  "checkKeyBeforeMerging rng key dv cv (MapOf fm) = Inr r \<Longrightarrow>
   \<exists>fm'. r = MapOf fm' \<and> (\<forall>k. k \<noteq> key \<longrightarrow> fmlookup fm' k = fmlookup fm k)"
  using frame_both(1) [of rng key dv cv "MapOf fm" r fm] by blast

lemma rangeDefaultCRDecoded_untouched:
  "rangeDefaultCRDecoded rng ks D (MapOf C) = Inr r \<Longrightarrow>
   \<exists>R. r = MapOf R \<and> (\<forall>k. k \<notin> set ks \<longrightarrow> fmlookup R k = fmlookup C k)"
proof (induction ks arbitrary: C)
  case Nil
  then show ?case by auto
next
  case (Cons key ks)
  from Cons.prems obtain c' where
    c: "checkKeyBeforeMerging rng key (gomapIndex D key) (mapIndex C key) (MapOf C) = Inr c'"
    and l: "rangeDefaultCRDecoded rng ks D c' = Inr r"
    by (cases "checkKeyBeforeMerging rng key (gomapIndex D key) (mapIndex C key) (MapOf C)")
      simp_all
  from checkKeyBeforeMerging_frame [OF c] obtain C' where C': "c' = MapOf C'"
    and f: "\<forall>k. k \<noteq> key \<longrightarrow> fmlookup C' k = fmlookup C k"
    by blast
  from Cons.IH [of C'] l C' obtain R where "r = MapOf R"
    and "\<forall>k. k \<notin> set ks \<longrightarrow> fmlookup R k = fmlookup C' k" by blast
  with f show ?case by auto
qed

lemma nested_loop_as_top_loop:
  "distinct ks \<Longrightarrow> mapIndex fm key = JObject t \<Longrightarrow>
   (\<forall>k\<in>set ks. mapIndex cm k = mapIndex t k) \<Longrightarrow>
   rangeDefaultMapRef rng ks dm cm key (MapOf fm) =
     (case rangeDefaultCRDecoded rng ks (MapOf dm) (MapOf t) of
        Inl p \<Rightarrow> Inl p
      | Inr t' \<Rightarrow> Inr (mutatedAt (MapOf fm) key t'))"
proof (induction ks arbitrary: fm t)
  case Nil
  then have "fmlookup fm key = Some (JObject t)"
    using mapIndex_not_null [of fm key] by simp
  then show ?case by (simp add: fmupd_known)
next
  case (Cons newKey ks)
  have eq: "mapIndex cm newKey = mapIndex t newKey"
    using Cons.prems(3) by simp
  show ?case
  proof (cases "checkKeyBeforeMerging rng newKey (mapIndex dm newKey) (mapIndex t newKey)
      (MapOf t)")
    case (Inl p)
    with Cons.prems(2) eq show ?thesis by simp
  next
    case (Inr r)
    from checkKeyBeforeMerging_frame [OF Inr] obtain t' where r: "r = MapOf t'"
      and f: "\<And>k. k \<noteq> newKey \<Longrightarrow> fmlookup t' k = fmlookup t k"
      by blast
    have inv: "\<forall>k\<in>set ks. mapIndex cm k = mapIndex t' k"
    proof
      fix k assume k: "k \<in> set ks"
      with Cons.prems(1) have "k \<noteq> newKey" by auto
      from f [OF this] have "mapIndex t' k = mapIndex t k"
        by (rule mapIndex_cong)
      with Cons.prems(3) k show "mapIndex cm k = mapIndex t' k" by simp
    qed
    from Cons.prems(1) have d: "distinct ks" by simp
    have "rangeDefaultMapRef rng ks dm cm key (MapOf (fmupd key (JObject t') fm)) =
      (case rangeDefaultCRDecoded rng ks (MapOf dm) (MapOf t') of
         Inl p \<Rightarrow> Inl p
       | Inr t'' \<Rightarrow> Inr (mutatedAt (MapOf (fmupd key (JObject t') fm)) key t''))"
      by (rule Cons.IH [OF d _ inv]) (simp add: mapIndex_fmupd)
    moreover have "mutatedAt (MapOf (fmupd key (JObject t') fm)) key t'' = mutatedAt (MapOf fm) key t''"
      if "rangeDefaultCRDecoded rng ks (MapOf dm) (MapOf t') = Inr t''" for t''
      using rangeDefaultCRDecoded_untouched [OF that] by auto
    ultimately show ?thesis
      using Cons.prems(2) eq Inr r by (simp split: sum.splits)
  qed
qed

lemma checkKeyBeforeMerging_unfold:
  assumes "rangeOrder rng" and "mapIndex fm key = cv"
  shows "checkKeyBeforeMerging rng key dv cv (MapOf fm) =
     (if dv = cv then Inr (MapOf fm)
      else if cv = JNull then Inr (MapOf (fmupd key dv fm))
      else (case (dv, cv) of
              (JObject dm, JObject cm) \<Rightarrow>
                (case rangeDefaultCRDecoded rng (rng dm) (MapOf dm) (MapOf cm) of
                   Inl p \<Rightarrow> Inl p
                 | Inr t' \<Rightarrow> Inr (mutatedAt (MapOf fm) key t'))
            | _ \<Rightarrow> Inr (MapOf fm)))"
proof (cases "\<exists>dm cm. dv = JObject dm \<and> cv = JObject cm \<and> dv \<noteq> cv")
  case True
  then obtain dm cm where d: "dv = JObject dm" "cv = JObject cm" "dv \<noteq> cv"
    by blast
  from assms(1) have "distinct (rng dm)" by (simp add: rangeOrder_def)
  from nested_loop_as_top_loop [OF this, of fm key cm cm rng dm] assms(2) d
  show ?thesis
    by (subst checkKeyBeforeMerging.simps) simp
next
  case False
  then show ?thesis
    by (subst checkKeyBeforeMerging.simps) (cases dv; cases cv; simp)
qed

lemma rangeDefaultCRDecoded_total:
  "rangeOrder rng \<Longrightarrow> \<exists>R. rangeDefaultCRDecoded rng ks (MapOf D) (MapOf C) = Inr (MapOf R)"
proof (induction D arbitrary: ks C rule: measure_induct_rule [where f = "\<lambda>D. size (JObject D)"])
  case (less D)
  note order = \<open>rangeOrder rng\<close>
  show ?case
  proof (induction ks arbitrary: C)
    case Nil
    show ?case by simp
  next
    case (Cons key ks)
    have "\<exists>C'. checkKeyBeforeMerging rng key (mapIndex D key) (mapIndex C key) (MapOf C)
        = Inr (MapOf C')"
    proof (cases "\<exists>dm cm. mapIndex D key = JObject dm \<and> mapIndex C key = JObject cm")
      case True
      then obtain dm cm where d: "mapIndex D key = JObject dm" "mapIndex C key = JObject cm"
        by blast
      from size_mapIndex [of D key] d have "size (JObject dm) < size (JObject D)"
        by simp
      from less.IH [OF this order] obtain t where
        "rangeDefaultCRDecoded rng (rng dm) (MapOf dm) (MapOf cm) = Inr (MapOf t)" by blast
      then show ?thesis
        unfolding d(1) d(2) by (simp add: checkKeyBeforeMerging_unfold [OF order d(2)])
    next
      case False
      then show ?thesis
        unfolding checkKeyBeforeMerging_unfold [OF order refl]
        by (cases "mapIndex D key"; cases "mapIndex C key") simp_all
    qed
    then obtain C' where
      "checkKeyBeforeMerging rng key (mapIndex D key) (mapIndex C key) (MapOf C) = Inr (MapOf C')" ..
    with Cons.IH [of C'] show ?case by simp
  qed
qed

text \<open>
  With a nil map for the changed document the loop returns nil when every default value
  it meets is \<^verbatim>\<open>null\<close>, and panics at the first other one.
\<close>

lemma rangeDefaultCRDecoded_NilMap:
  "rangeDefaultCRDecoded rng ks D NilMap =
     (if \<forall>k\<in>set ks. gomapIndex D k = JNull then Inr NilMap
      else Inl PanicAssignmentToNilMap)"
proof (induction ks)
  case Nil
  show ?case by simp
next
  case (Cons key ks)
  have "checkKeyBeforeMerging rng key (gomapIndex D key) JNull NilMap =
      (if gomapIndex D key = JNull then Inr NilMap else Inl PanicAssignmentToNilMap)"
    by (cases "gomapIndex D key") (simp_all add: checkKeyBeforeMerging.simps)
  with Cons.IH show ?case by simp
qed

lemma rangeDefaultCRDecoded_key:
  "distinct ks \<Longrightarrow> k \<in> set ks \<Longrightarrow>
   rangeDefaultCRDecoded rng ks (MapOf D) (MapOf C) = Inr (MapOf R) \<Longrightarrow>
   \<exists>C' C''. fmlookup C' k = fmlookup C k \<and>
     checkKeyBeforeMerging rng k (mapIndex D k) (mapIndex C k) (MapOf C') = Inr (MapOf C'') \<and>
     fmlookup R k = fmlookup C'' k"
proof (induction ks arbitrary: C)
  case Nil
  then show ?case by simp
next
  case (Cons key ks)
  from Cons.prems(3) obtain c1 where
    c: "checkKeyBeforeMerging rng key (mapIndex D key) (mapIndex C key) (MapOf C) = Inr c1"
    and l: "rangeDefaultCRDecoded rng ks (MapOf D) c1 = Inr (MapOf R)"
    by (cases "checkKeyBeforeMerging rng key (mapIndex D key) (mapIndex C key) (MapOf C)")
      simp_all
  from checkKeyBeforeMerging_frame [OF c] obtain C1 where C1: "c1 = MapOf C1"
    and f: "\<And>k. k \<noteq> key \<Longrightarrow> fmlookup C1 k = fmlookup C k"
    by blast
  show ?case
  proof (cases "k = key")
    case True
    with Cons.prems(1) have "k \<notin> set ks" by simp
    with rangeDefaultCRDecoded_untouched [OF l [unfolded C1]] have "fmlookup R k = fmlookup C1 k"
      by auto
    with c C1 True show ?thesis by blast
  next
    case False
    with Cons.prems have d: "distinct ks" and k: "k \<in> set ks" by auto
    from f [OF False] have e: "fmlookup C1 k = fmlookup C k" .
    then have "mapIndex C1 k = mapIndex C k" by (rule mapIndex_cong)
    with Cons.IH [OF d k l [unfolded C1]] e show ?thesis by auto
  qed
qed

lemma merged_lookup_outside:
  assumes "rangeOrder rng"
    and "rangeDefaultCRDecoded rng (rng D) (MapOf D) (MapOf C) = Inr (MapOf R)"
    and "fmlookup D k = None"
  shows "fmlookup R k = fmlookup C k"
proof -
  from assms(1,3) have "k \<notin> set (rng D)"
    by (simp add: rangeOrder_def fmdom'_notI)
  with rangeDefaultCRDecoded_untouched [OF assms(2)] show ?thesis by auto
qed

text \<open>
  What the merge leaves at a key of the default map: the four outcomes of
  \<^verbatim>\<open>checkKeyBeforeMerging\<close>.
\<close>

lemma merged_lookup_cases:
  assumes "rangeOrder rng"
    and "rangeDefaultCRDecoded rng (rng D) (MapOf D) (MapOf C) = Inr (MapOf R)"
    and "fmlookup D k = Some dv"
  obtains
    (equal) "dv = mapIndex C k" "fmlookup R k = fmlookup C k"
  | (fill) "dv \<noteq> mapIndex C k" "mapIndex C k = JNull" "fmlookup R k = Some dv"
  | (nested) dm cm t where "dv = JObject dm" "mapIndex C k = JObject cm" "dm \<noteq> cm"
      "rangeDefaultCRDecoded rng (rng dm) (MapOf dm) (MapOf cm) = Inr (MapOf t)"
      "fmlookup R k = Some (JObject t)"
  | (keep) "dv \<noteq> mapIndex C k" "mapIndex C k \<noteq> JNull"
      "\<not> (\<exists>dm cm. dv = JObject dm \<and> mapIndex C k = JObject cm)"
      "fmlookup R k = fmlookup C k"
proof -
  from assms(1,3) have d: "distinct (rng D)" and k: "k \<in> set (rng D)"
    by (auto simp: rangeOrder_def fmdom'I)
  from rangeDefaultCRDecoded_key [OF d k assms(2)] obtain C' C'' where
    e: "fmlookup C' k = fmlookup C k"
    and c: "checkKeyBeforeMerging rng k (mapIndex D k) (mapIndex C k) (MapOf C') = Inr (MapOf C'')"
    and r: "fmlookup R k = fmlookup C'' k"
    by blast
  from e have i: "mapIndex C' k = mapIndex C k" by (rule mapIndex_cong)
  from assms(3) have dv: "mapIndex D k = dv" by (rule mapIndex_Some)
  note u = c [unfolded checkKeyBeforeMerging_unfold [OF assms(1) i] dv]
  show thesis
  proof (cases "dv = mapIndex C k \<or> mapIndex C k = JNull")
    case True
    show thesis
    proof (cases "dv = mapIndex C k")
      case eq: True
      with u r e have "fmlookup R k = fmlookup C k" by simp
      with eq show thesis by (rule equal)
    next
      case ne: False
      with True have n: "mapIndex C k = JNull" by simp
      with ne u r have "fmlookup R k = Some dv" by auto
      with ne n show thesis by (rule fill)
    qed
  next
    case False
    show thesis
    proof (cases "\<exists>dm cm. dv = JObject dm \<and> mapIndex C k = JObject cm")
      case True
      then obtain dm cm where m: "dv = JObject dm" "mapIndex C k = JObject cm" by blast
      from rangeDefaultCRDecoded_total [OF assms(1)] obtain t where
        t: "rangeDefaultCRDecoded rng (rng dm) (MapOf dm) (MapOf cm) = Inr (MapOf t)" by blast
      with u False m r have "fmlookup R k = Some (JObject t)" by auto
      with False m t show thesis by (intro nested [of dm cm t]) auto
    next
      case notmaps: False
      with u False have "C'' = C'"
        by (cases dv; cases "mapIndex C k") simp_all
      with r e have "fmlookup R k = fmlookup C k" by simp
      with False notmaps show thesis by (intro keep) auto
    qed
  qed
qed

subsection \<open>The invariant of the calls\<close>

lemma gomapIndex_JObject:
  "gomapIndex finalMap key = JObject t \<Longrightarrow> \<exists>fm. finalMap = MapOf fm \<and> mapIndex fm key = JObject t"
  by (cases finalMap) simp_all

lemma calls_invariant_both:
  "rangeOrder rng \<longrightarrow> gomapIndex finalMap key = cv \<longrightarrow>
     (\<forall>c\<in>set (callsOfCheckKey rng key dv cv finalMap). callInvariant c)"
  "rangeOrder rng \<longrightarrow> distinct ks \<longrightarrow>
     (\<forall>t. gomapIndex finalMap key = JObject t \<longrightarrow> (\<forall>k\<in>set ks. mapIndex cm k = mapIndex t k)) \<longrightarrow>
     (\<forall>c\<in>set (callsOfRange rng ks dm cm key finalMap). callInvariant c)"
proof (induction rng key dv cv finalMap and rng ks dm cm key finalMap
    rule: callsOfCheckKey_callsOfRange.induct)
  case (1 rng key defaultMap changedMap finalMap)
  show ?case
  proof (intro impI ballI)
    fix c
    assume order: "rangeOrder rng" and inv: "gomapIndex finalMap key = changedMap"
      and c: "c \<in> set (callsOfCheckKey rng key defaultMap changedMap finalMap)"
    show "callInvariant c"
    proof (cases "c = (key, defaultMap, changedMap, finalMap)")
      case True
      with inv show ?thesis by (simp add: callInvariant_def)
    next
      case other: False
      show ?thesis
      proof (cases "defaultMap = changedMap")
        case True
        with c other show ?thesis
          by (simp add: callsOfCheckKey.simps)
      next
        case False
        with c other have "c \<in> set (case defaultMap of
               JObject defaultMapRef \<Rightarrow>
                 (if changedMap = JNull then []
                  else (case changedMap of
                          JObject changedMapRef \<Rightarrow>
                            callsOfRange rng (rng defaultMapRef) defaultMapRef changedMapRef
                              key finalMap
                        | _ \<Rightarrow> []))
             | _ \<Rightarrow> [])"
          by (simp add: callsOfCheckKey.simps)
        then obtain dm cm where d: "defaultMap = JObject dm" "changedMap \<noteq> JNull"
            "changedMap = JObject cm"
          and c': "c \<in> set (callsOfRange rng (rng dm) dm cm key finalMap)"
          by (cases defaultMap; cases changedMap) simp_all
        from order have "distinct (rng dm)" by (simp add: rangeOrder_def)
        with "1.IH" [OF False d] order inv d(3) c' show ?thesis by auto
      qed
    qed
  qed
next
  case (2 rng defaultMapRef changedMapRef key finalMap)
  show ?case by simp
next
  case (3 rng newKey keys dm cm key finalMap)
  show ?case
  proof (intro impI ballI)
    fix c
    assume order: "rangeOrder rng" and dist: "distinct (newKey # keys)"
      and inv: "\<forall>t. gomapIndex finalMap key = JObject t \<longrightarrow>
                  (\<forall>k\<in>set (newKey # keys). mapIndex cm k = mapIndex t k)"
      and c: "c \<in> set (callsOfRange rng (newKey # keys) dm cm key finalMap)"
    from c obtain target where t: "gomapIndex finalMap key = JObject target"
      by (cases "gomapIndex finalMap key") simp_all
    from gomapIndex_JObject [OF t] obtain fm where fm: "finalMap = MapOf fm" by blast
    from inv t have e: "mapIndex target newKey = mapIndex cm newKey" by simp
    from c t consider
        (first) "c \<in> set (callsOfCheckKey rng newKey (mapIndex dm newKey) (mapIndex cm newKey)
            (MapOf target))"
      | (rest) target' where
          "checkKeyBeforeMerging rng newKey (mapIndex dm newKey) (mapIndex cm newKey)
             (MapOf target) = Inr target'"
          "c \<in> set (callsOfRange rng keys dm cm key (mutatedAt finalMap key target'))"
      by (cases "checkKeyBeforeMerging rng newKey (mapIndex dm newKey) (mapIndex cm newKey)
            (MapOf target)") auto
    then show "callInvariant c"
    proof cases
      case first
      with "3.IH"(1) [OF t] order e show ?thesis by simp
    next
      case rest
      from checkKeyBeforeMerging_frame [OF rest(1)] obtain t' where t': "target' = MapOf t'"
        and f: "\<And>k. k \<noteq> newKey \<Longrightarrow> fmlookup t' k = fmlookup target k"
        by blast
      have "\<forall>k\<in>set keys. mapIndex cm k = mapIndex t' k"
      proof
        fix k assume k: "k \<in> set keys"
        with dist have "k \<noteq> newKey" by auto
        from f [OF this] have "mapIndex t' k = mapIndex target k" by (rule mapIndex_cong)
        with inv t k show "mapIndex cm k = mapIndex t' k" by simp
      qed
      with "3.IH"(2) [OF t rest(1)] order dist rest(2) fm t' show ?thesis
        by (simp add: mapIndex_fmupd)
    qed
  qed
qed

lemma callsOfRangeDefaultCR_invariant:
  "rangeOrder rng \<Longrightarrow> c \<in> set (callsOfRangeDefaultCR rng ks D C) \<Longrightarrow> callInvariant c"
proof (induction ks arbitrary: C)
  case Nil
  then show ?case by simp
next
  case (Cons key ks)
  from Cons.prems(2) consider
      (first) "c \<in> set (callsOfCheckKey rng key (gomapIndex D key) (gomapIndex C key) C)"
    | (rest) C' where "c \<in> set (callsOfRangeDefaultCR rng ks D C')"
    by (cases "checkKeyBeforeMerging rng key (gomapIndex D key) (gomapIndex C key) C") auto
  then show ?case
  proof cases
    case first
    with calls_invariant_both(1) [of rng C key "gomapIndex C key" "gomapIndex D key"] Cons.prems(1)
    show ?thesis by blast
  next
    case rest
    with Cons.IH Cons.prems(1) show ?thesis by blast
  qed
qed

text \<open>
  The type assertion of line 72 does not fail in a call that starts with the entry of
  \<^verbatim>\<open>finalMap\<close> at \<^verbatim>\<open>key\<close> equal to \<^verbatim>\<open>changedMap\<close>; the only panic left is the write
  to a nil map.
\<close>

lemma checkKeyBeforeMerging_no_conversion_panic:
  "rangeOrder rng \<Longrightarrow> gomapIndex finalMap key = cv \<Longrightarrow>
   checkKeyBeforeMerging rng key dv cv finalMap \<noteq> Inl (PanicInterfaceConversion v)"
proof (cases finalMap)
  case NilMap
  assume "gomapIndex finalMap key = cv"
  with NilMap have "cv = JNull" by simp
  with NilMap show ?thesis
    by (cases dv) (simp_all add: checkKeyBeforeMerging.simps)
next
  case (MapOf fm)
  assume order: "rangeOrder rng" and i: "gomapIndex finalMap key = cv"
  with MapOf have i': "mapIndex fm key = cv" by simp
  show ?thesis
  proof (cases "\<exists>dm cm. dv = JObject dm \<and> cv = JObject cm")
    case True
    then obtain dm cm where m: "dv = JObject dm" "cv = JObject cm" by blast
    from rangeDefaultCRDecoded_total [OF order] obtain t where
      "rangeDefaultCRDecoded rng (rng dm) (MapOf dm) (MapOf cm) = Inr (MapOf t)" by blast
    with m MapOf show ?thesis
      using checkKeyBeforeMerging_unfold [OF order i', of dv] by simp
  next
    case False
    with MapOf checkKeyBeforeMerging_unfold [OF order i', of dv] show ?thesis
      by (cases dv; cases cv) simp_all
  qed
qed

lemma rangeDefaultCRDecoded_no_conversion_panic:
  "rangeOrder rng \<Longrightarrow>
   rangeDefaultCRDecoded rng ks D C \<noteq> Inl (PanicInterfaceConversion v)"
proof (induction ks arbitrary: C)
  case Nil
  show ?case by simp
next
  case (Cons key ks)
  from checkKeyBeforeMerging_no_conversion_panic [OF Cons.prems refl,
      where finalMap = C and key = key and dv = "gomapIndex D key" and v = v]
    Cons.IH [OF Cons.prems]
  show ?case
    by (cases "checkKeyBeforeMerging rng key (gomapIndex D key) (gomapIndex C key) C") auto
qed

subsection \<open>Merging twice, and the order of the keys\<close>

lemma rangeOrder_sortedKeys: "rangeOrder sortedKeys"
  by (simp add: rangeOrder_def sortedKeys_def fmdom'_alt_def sorted_list_of_fset.rep_eq)

lemma checkKeyBeforeMerging_equal: "checkKeyBeforeMerging rng key v v finalMap = Inr finalMap"
  by (simp add: checkKeyBeforeMerging.simps)

lemma rangeDefaultCRDecoded_fixed:
  "(\<forall>k\<in>set ks. checkKeyBeforeMerging rng k (gomapIndex D k) (gomapIndex R k) R = Inr R) \<Longrightarrow>
   rangeDefaultCRDecoded rng ks D R = Inr R"
  by (induction ks) simp_all

lemma rangeDefaultCRDecoded_self: "rangeDefaultCRDecoded rng ks D D = Inr D"
  by (rule rangeDefaultCRDecoded_fixed) (simp add: checkKeyBeforeMerging_equal)

lemma rangeDefaultCRDecoded_idempotent_MapOf:
  "rangeOrder rng \<Longrightarrow> rangeDefaultCRDecoded rng (rng D) (MapOf D) (MapOf C) = Inr (MapOf R) \<Longrightarrow>
   rangeDefaultCRDecoded rng (rng D) (MapOf D) (MapOf R) = Inr (MapOf R)"
proof (induction D arbitrary: C R rule: measure_induct_rule [where f = "\<lambda>D. size (JObject D)"])
  case (less D)
  note order = \<open>rangeOrder rng\<close>
  note merged = \<open>rangeDefaultCRDecoded rng (rng D) (MapOf D) (MapOf C) = Inr (MapOf R)\<close>
  show ?case
  proof (rule rangeDefaultCRDecoded_fixed, rule ballI)
    fix k assume "k \<in> set (rng D)"
    with order have "k \<in> fmdom' D" by (simp add: rangeOrder_def)
    then obtain dv where dv: "fmlookup D k = Some dv"
      by (auto simp: fmdom'_alt_def fmdom.rep_eq dom_def)
    then have d: "mapIndex D k = dv" by (rule mapIndex_Some)
    have "checkKeyBeforeMerging rng k dv (mapIndex R k) (MapOf R) = Inr (MapOf R)"
    proof (cases rule: merged_lookup_cases [OF order merged dv, case_names equal fill nested keep])
      case equal
      then have "mapIndex R k = dv" by (simp add: mapIndex_def)
      then show ?thesis by (simp add: checkKeyBeforeMerging_equal)
    next
      case fill
      then have "mapIndex R k = dv" by (simp add: mapIndex_def)
      then show ?thesis by (simp add: checkKeyBeforeMerging_equal)
    next
      case (nested dm cm t)
      from nested(5) have r: "mapIndex R k = JObject t" by (rule mapIndex_Some)
      from size_mapIndex [of D k] d nested(1) have "size (JObject dm) < size (JObject D)"
        by simp
      from less.IH [OF this order nested(4)]
      have "rangeDefaultCRDecoded rng (rng dm) (MapOf dm) (MapOf t) = Inr (MapOf t)" .
      with nested(1,5) show ?thesis
        unfolding r checkKeyBeforeMerging_unfold [OF order r]
        by (simp add: fmupd_known)
    next
      case keep
      from keep(4) have r: "mapIndex R k = mapIndex C k" by (rule mapIndex_cong)
      from keep(1-3) show ?thesis
        unfolding r checkKeyBeforeMerging_unfold [OF order r]
        by (cases dv; cases "mapIndex C k") simp_all
    qed
    with d show "checkKeyBeforeMerging rng k (gomapIndex (MapOf D) k) (gomapIndex (MapOf R) k)
        (MapOf R) = Inr (MapOf R)"
      by simp
  qed
qed

lemma rangeDefaultCRDecoded_idempotent:
  assumes "rangeOrder rng" and "rangeDefaultCRDecoded rng (gomapRange rng D) D C = Inr R"
  shows "rangeDefaultCRDecoded rng (gomapRange rng D) D R = Inr R"
proof (cases D)
  case NilMap
  with assms(2) show ?thesis by simp
next
  case D: (MapOf d)
  show ?thesis
  proof (cases C)
    case NilMap
    with assms(2) show ?thesis
      by (simp add: rangeDefaultCRDecoded_NilMap split: if_splits)
  next
    case (MapOf c)
    with assms(2) D rangeDefaultCRDecoded_untouched [of rng "rng d" D c R]
    obtain r where "R = MapOf r" by auto
    with assms D MapOf rangeDefaultCRDecoded_idempotent_MapOf [of rng d c r] show ?thesis
      by simp
  qed
qed

lemma rangeDefaultCRDecoded_order_MapOf:
  "rangeOrder rng \<Longrightarrow> rangeOrder rng' \<Longrightarrow>
   rangeDefaultCRDecoded rng (rng D) (MapOf D) (MapOf C) =
   rangeDefaultCRDecoded rng' (rng' D) (MapOf D) (MapOf C)"
proof (induction D arbitrary: C rule: measure_induct_rule [where f = "\<lambda>D. size (JObject D)"])
  case (less D)
  note order = \<open>rangeOrder rng\<close> and order' = \<open>rangeOrder rng'\<close>
  from rangeDefaultCRDecoded_total [OF order] obtain R where
    R: "rangeDefaultCRDecoded rng (rng D) (MapOf D) (MapOf C) = Inr (MapOf R)" by blast
  from rangeDefaultCRDecoded_total [OF order'] obtain R' where
    R': "rangeDefaultCRDecoded rng' (rng' D) (MapOf D) (MapOf C) = Inr (MapOf R')" by blast
  have "R = R'"
  proof (rule fmap_ext)
    fix k
    show "fmlookup R k = fmlookup R' k"
    proof (cases "fmlookup D k")
      case None
      from merged_lookup_outside [OF order R None] merged_lookup_outside [OF order' R' None]
      show ?thesis by simp
    next
      case (Some dv)
      have sub: "rangeDefaultCRDecoded rng (rng dm) (MapOf dm) (MapOf cm) =
          rangeDefaultCRDecoded rng' (rng' dm) (MapOf dm) (MapOf cm)"
        if "dv = JObject dm" for dm cm
      proof -
        from size_mapIndex [of D k] Some that have "size (JObject dm) < size (JObject D)"
          by (simp add: mapIndex_def)
        from less.IH [OF this order order'] show ?thesis .
      qed
      show ?thesis
      proof (cases rule: merged_lookup_cases [OF order R Some, case_names equal fill nested keep])
        case equal
        then show ?thesis
          by (cases rule: merged_lookup_cases [OF order' R' Some, case_names equal fill nested keep]) auto
      next
        case fill
        then show ?thesis
          by (cases rule: merged_lookup_cases [OF order' R' Some, case_names equal fill nested keep]) auto
      next
        case (nested dm cm t)
        with sub [of dm cm] show ?thesis
          by (cases rule: merged_lookup_cases [OF order' R' Some, case_names equal fill nested keep]) auto
      next
        case keep
        then show ?thesis
          by (cases rule: merged_lookup_cases [OF order' R' Some, case_names equal fill nested keep]) auto
      qed
    qed
  qed
  with R R' show ?case by simp
qed

lemma rangeDefaultCRDecoded_order:
  assumes "rangeOrder rng" and "rangeOrder rng'"
  shows "rangeDefaultCRDecoded rng (gomapRange rng D) D C =
         rangeDefaultCRDecoded rng' (gomapRange rng' D) D C"
proof (cases D)
  case NilMap
  then show ?thesis by simp
next
  case D: (MapOf d)
  from assms have s: "set (rng d) = set (rng' d)" by (simp add: rangeOrder_def)
  show ?thesis
  proof (cases C)
    case NilMap
    with D s show ?thesis by (simp add: rangeDefaultCRDecoded_NilMap)
  next
    case (MapOf c)
    with D rangeDefaultCRDecoded_order_MapOf [OF assms] show ?thesis by simp
  qed
qed

subsection \<open>Keys along a path\<close>

lemma jsonAt_object: "jsonAt v path = JObject m \<Longrightarrow> \<exists>m'. v = JObject m'"
  by (cases path; cases v) simp_all

lemma merged_covers:
  "rangeOrder rng \<Longrightarrow>
   rangeDefaultCRDecoded rng (rng D) (MapOf D) (MapOf C) = Inr (MapOf R) \<Longrightarrow>
   jsonAt (JObject D) path = JObject dm \<Longrightarrow> jsonAt (JObject C) path = JObject cm \<Longrightarrow>
   fmlookup dm k = Some dv \<Longrightarrow> dv \<noteq> JNull \<Longrightarrow>
   \<exists>rm. jsonAt (JObject R) path = JObject rm \<and> k \<in> fmdom' rm"
proof (induction path arbitrary: D C R)
  case Nil
  then have D: "dm = D" and C: "cm = C" by simp_all
  from Nil.prems(5) D have dv: "fmlookup D k = Some dv" by simp
  have "fmlookup R k \<noteq> None"
    using Nil.prems(6)
    by (cases rule: merged_lookup_cases [OF Nil.prems(1,2) dv])
      (auto simp: mapIndex_def split: option.splits)
  then show ?case by (auto simp: fmdom'I)
next
  case (Cons a path)
  note order = Cons.prems(1) and merged = Cons.prems(2)
  from Cons.prems(3) obtain D' where D': "mapIndex D a = JObject D'"
    and dm: "jsonAt (JObject D') path = JObject dm"
    using jsonAt_object [of "mapIndex D a" path dm] by auto
  from Cons.prems(4) obtain C' where C': "mapIndex C a = JObject C'"
    and cm: "jsonAt (JObject C') path = JObject cm"
    using jsonAt_object [of "mapIndex C a" path cm] by auto
  from D' have Da: "fmlookup D a = Some (JObject D')"
    using mapIndex_not_null [of D a] by simp
  from C' have Ca: "fmlookup C a = Some (JObject C')"
    using mapIndex_not_null [of C a] by simp
  show ?case
  proof (cases rule: merged_lookup_cases [OF order merged Da, case_names equal fill nested keep])
    case equal
    with C' Ca have "mapIndex R a = JObject C'" "D' = C'"
      by (simp_all add: mapIndex_def)
    with cm dm Cons.prems(5) show ?thesis
      by (auto simp: fmdom'I)
  next
    case fill
    with C' show ?thesis by simp
  next
    case (nested dm' cm' t)
    with C' have "dm' = D'" "cm' = C'" and r: "mapIndex R a = JObject t"
      by (simp_all add: mapIndex_def)
    with Cons.IH [OF order _ dm cm Cons.prems(5,6)] nested(4) show ?thesis by simp
  next
    case keep
    with C' show ?thesis by simp
  qed
qed

lemma merged_keeps:
  "rangeOrder rng \<Longrightarrow>
   rangeDefaultCRDecoded rng (rng D) (MapOf D) (MapOf C) = Inr (MapOf R) \<Longrightarrow>
   jsonAt (JObject C) path = JObject cm \<Longrightarrow> fmlookup cm k = Some v \<Longrightarrow>
   \<not> (\<exists>dm. jsonAt (JObject D) path = JObject dm \<and> k \<in> fmdom' dm) \<Longrightarrow>
   \<exists>rm. jsonAt (JObject R) path = JObject rm \<and> fmlookup rm k = Some v"
proof (induction path arbitrary: D C R)
  case Nil
  then have C: "cm = C" and "k \<notin> fmdom' D" by simp_all
  then have "fmlookup D k = None" by (simp add: fmdom'_notD)
  from merged_lookup_outside [OF Nil.prems(1,2) this] C Nil.prems(4) show ?case by simp
next
  case (Cons a path)
  note order = Cons.prems(1) and merged = Cons.prems(2)
  from Cons.prems(3) obtain C' where C': "mapIndex C a = JObject C'"
    and cm: "jsonAt (JObject C') path = JObject cm"
    using jsonAt_object [of "mapIndex C a" path cm] by auto
  have same: ?case if "fmlookup R a = fmlookup C a"
  proof -
    from that have "mapIndex R a = mapIndex C a" by (rule mapIndex_cong)
    with Cons.prems(3,4) show ?thesis by simp
  qed
  show ?case
  proof (cases "fmlookup D a")
    case None
    from merged_lookup_outside [OF order merged None] show ?thesis by (rule same)
  next
    case (Some dv)
    show ?thesis
    proof (cases rule: merged_lookup_cases [OF order merged Some,
          case_names equal fill nested keep])
      case equal
      then show ?thesis by (intro same)
    next
      case fill
      with C' show ?thesis by simp
    next
      case (nested dm' cm' t)
      with C' have c: "cm' = C'" and r: "mapIndex R a = JObject t"
        by (simp_all add: mapIndex_def)
      from Some nested(1) have "mapIndex D a = JObject dm'" by (simp add: mapIndex_def)
      with Cons.prems(5) have "\<not> (\<exists>dm. jsonAt (JObject dm') path = JObject dm \<and> k \<in> fmdom' dm)"
        by simp
      from Cons.IH [OF order nested(4) [unfolded c] cm Cons.prems(4) this] r show ?thesis
        by simp
    next
      case keep
      then show ?thesis by (intro same)
    qed
  qed
qed

lemma MergeCR_both:
  "defaultCR \<noteq> [] \<Longrightarrow> changedCR \<noteq> [] \<Longrightarrow>
   json_Unmarshal defaultCR = (D, e1) \<Longrightarrow> json_Unmarshal changedCR = (C, e2) \<Longrightarrow>
   MergeCR rng json_Unmarshal defaultCR changedCR =
     rangeDefaultCRDecoded rng (gomapRange rng D) D C"
  by (simp add: MergeCR_def)

text \<open>
  The order in which \<^verbatim>\<open>range\<close> visits the keys does not show in the result, so the
  ascending order used on concrete documents stands for any order.
\<close>

lemma MergeCR_order:
  "rangeOrder rng \<Longrightarrow> rangeOrder rng' \<Longrightarrow>
   MergeCR rng json_Unmarshal defaultCR changedCR = MergeCR rng' json_Unmarshal defaultCR changedCR"
  by (simp add: MergeCR_def rangeDefaultCRDecoded_order [of rng rng'] split: prod.splits)

section \<open>The claims about MergeCR\<close>

lemma callsOfCheckKey_equal:
  "callsOfCheckKey rng key v v finalMap = [(key, v, v, finalMap)]"
  by (simp add: callsOfCheckKey.simps)

lemma callsOfRangeDefaultCR_self:
  "set (callsOfRangeDefaultCR rng ks D D) = (\<lambda>k. (k, gomapIndex D k, gomapIndex D k, D)) ` set ks"
  by (induction ks) (simp_all add: callsOfCheckKey_equal checkKeyBeforeMerging_equal)

text \<open>
  C1. Every key of the default document would be in the result. A key whose default value
  is \<^verbatim>\<open>null\<close> and that the changed document lacks is not: \<^verbatim>\<open>DeepEqual(nil, nil)\<close>
  holds and nothing is written. Default \<open>{"a":null}\<close>, changed \<open>{}\<close>: the result is
  \<open>{}\<close>.
\<close>

theorem MergeCR_null_default_key_missing:
  \<open>exampleUnmarshal ''{"a":null}'' = (MapOf (fmap_of_list [(''a'', JNull)]), None) \<and>
   exampleUnmarshal ''{}'' = (MapOf fmempty, None) \<and>
   fmlookup (fmap_of_list [(''a'', JNull)]) ''a'' = Some JNull \<and>
   MergeCR sortedKeys exampleUnmarshal ''{"a":null}'' ''{}'' = Inr (MapOf fmempty) \<and>
   fmlookup (fmempty :: object) ''a'' = None\<close>
  by code_simp

text \<open>
  C1, amended. For two non-empty texts that decode to the maps \<open>D\<close> and \<open>C\<close>: a key of
  \<open>D\<close> whose default value is not \<^verbatim>\<open>null\<close> is a key of the result; and so is, at its
  path, a key with a default value other than \<^verbatim>\<open>null\<close> of a mapping inside \<open>D\<close>, when
  \<open>C\<close> has a mapping at the same path (the empty path gives the top level).
\<close>

theorem MergeCR_key_coverage:
  assumes "rangeOrder rng" and "defaultCR \<noteq> []" and "changedCR \<noteq> []"
    and "json_Unmarshal defaultCR = (MapOf D, e1)"
    and "json_Unmarshal changedCR = (MapOf C, e2)"
    and "jsonAt (JObject D) path = JObject dm" and "jsonAt (JObject C) path = JObject cm"
    and "fmlookup dm k = Some dv" and "dv \<noteq> JNull"
  shows "\<exists>R rm. MergeCR rng json_Unmarshal defaultCR changedCR = Inr (MapOf R) \<and>
           jsonAt (JObject R) path = JObject rm \<and> k \<in> fmdom' rm"
proof -
  from rangeDefaultCRDecoded_total [OF assms(1)] obtain R where
    R: "rangeDefaultCRDecoded rng (rng D) (MapOf D) (MapOf C) = Inr (MapOf R)" by blast
  from merged_covers [OF assms(1) R assms(6-9)] R MergeCR_both [OF assms(2-5)]
  show ?thesis by auto
qed

theorem MergeCR_key_coverage_witness:
  \<open>rangeOrder sortedKeys \<and>
   exampleUnmarshal ''{"a":{"x":1,"y":2},"b":5}'' =
     (MapOf (fmap_of_list
        [(''a'', JObject (fmap_of_list [(''x'', JNumber 1), (''y'', JNumber 2)])),
         (''b'', JNumber 5)]), None) \<and>
   exampleUnmarshal ''{"a":{"x":9},"c":"kept"}'' =
     (MapOf (fmap_of_list
        [(''a'', JObject (fmap_of_list [(''x'', JNumber 9)])), (''c'', JString ''kept'')]),
      None) \<and>
   (\<exists>R rm. MergeCR sortedKeys exampleUnmarshal ''{"a":{"x":1,"y":2},"b":5}''
              ''{"a":{"x":9},"c":"kept"}'' = Inr (MapOf R) \<and>
           jsonAt (JObject R) [''a''] = JObject rm \<and> ''y'' \<in> fmdom' rm)\<close>
proof -
  let ?D = "fmap_of_list
        [(''a'', JObject (fmap_of_list [(''x'', JNumber 1), (''y'', JNumber 2)])),
         (''b'', JNumber 5)]"
  let ?C = "fmap_of_list
        [(''a'', JObject (fmap_of_list [(''x'', JNumber 9)])), (''c'', JString ''kept'')]"
  have d: \<open>exampleUnmarshal ''{"a":{"x":1,"y":2},"b":5}'' = (MapOf ?D, None)\<close>
    by code_simp
  have c: \<open>exampleUnmarshal ''{"a":{"x":9},"c":"kept"}'' = (MapOf ?C, None)\<close>
    by code_simp
  have pd: "jsonAt (JObject ?D) [''a''] =
      JObject (fmap_of_list [(''x'', JNumber 1), (''y'', JNumber 2)])"
    by code_simp
  have pc: "jsonAt (JObject ?C) [''a''] = JObject (fmap_of_list [(''x'', JNumber 9)])"
    by code_simp
  have k: "fmlookup (fmap_of_list [(''x'', JNumber 1), (''y'', JNumber 2)]) ''y''
      = Some (JNumber 2)"
    by code_simp
  from MergeCR_key_coverage [where json_Unmarshal = exampleUnmarshal
      and defaultCR = \<open>''{"a":{"x":1,"y":2},"b":5}''\<close>
      and changedCR = \<open>''{"a":{"x":9},"c":"kept"}''\<close>,
      OF rangeOrder_sortedKeys _ _ d c pd pc k]
  have \<open>\<exists>R rm. MergeCR sortedKeys exampleUnmarshal ''{"a":{"x":1,"y":2},"b":5}''
              ''{"a":{"x":9},"c":"kept"}'' = Inr (MapOf R) \<and>
           jsonAt (JObject R) [''a''] = JObject rm \<and> ''y'' \<in> fmdom' rm\<close>
    by simp
  with rangeOrder_sortedKeys d c show ?thesis by blast
qed

text \<open>
  A changed text \<^verbatim>\<open>null\<close> decodes without error, to a nil map, in which every key is
  absent. \<^verbatim>\<open>MergeCR\<close> makes its two maps before decoding, but \<^verbatim>\<open>json.Unmarshal\<close>
  replaces the map by nil; the first default value that is not \<^verbatim>\<open>null\<close> is then
  written to a nil map (line 67 or 78), and the call panics.
\<close>

lemma MergeCR_nil_changed_panics:
  assumes "rangeOrder rng" and "defaultCR \<noteq> []" and "changedCR \<noteq> []"
    and "json_Unmarshal defaultCR = (MapOf D, e1)"
    and "json_Unmarshal changedCR = (NilMap, e2)"
    and "fmlookup D k = Some dv" and "dv \<noteq> JNull"
  shows "MergeCR rng json_Unmarshal defaultCR changedCR = Inl PanicAssignmentToNilMap"
proof -
  from assms(1,6) have "k \<in> set (rng D)"
    by (simp add: rangeOrder_def fmdom'I)
  moreover from assms(6,7) have "gomapIndex (MapOf D) k \<noteq> JNull"
    by (simp add: mapIndex_def)
  ultimately have "\<not> (\<forall>k\<in>set (rng D). gomapIndex (MapOf D) k = JNull)"
    by blast
  with MergeCR_both [OF assms(2-5)] show ?thesis
    by (simp add: rangeDefaultCRDecoded_NilMap)
qed

text \<open>
  C5. For every decoded default and changed document and every key \<open>k\<close> of the default:
  (a) a changed value that is present, not \<^verbatim>\<open>null\<close> and no mapping would be the value
  of the result; (b) when the changed value is absent or \<^verbatim>\<open>null\<close> and the default
  value is not \<^verbatim>\<open>null\<close>, the default value would be the value of the result. Part (b)
  fails for the changed text \<^verbatim>\<open>null\<close>: with the default \<open>{"a":1}\<close> the key \<open>a\<close> is
  absent from the changed document, its default value is \<open>1\<close>, and \<^verbatim>\<open>MergeCR\<close> returns
  no map but panics on the write to the nil map.
\<close>

theorem MergeCR_gap_fill_nil_changed:
  \<open>exampleUnmarshal ''{"a":1}'' = (MapOf (fmap_of_list [(''a'', JNumber 1)]), None) \<and>
   exampleUnmarshal ''null'' = (NilMap, None) \<and>
   fmlookup (fmap_of_list [(''a'', JNumber 1)]) ''a'' = Some (JNumber 1) \<and>
   gomapIndex NilMap ''a'' = JNull \<and>
   MergeCR sortedKeys exampleUnmarshal ''{"a":1}'' ''null'' = Inl PanicAssignmentToNilMap\<close>
  by code_simp

text \<open>
  Where the changed text decodes to a map, both parts hold: a changed value that is
  present, not \<^verbatim>\<open>null\<close> and no mapping is the value of the result, whatever the default
  value is; and a default value other than \<^verbatim>\<open>null\<close> fills the place of a changed value
  that is absent or \<^verbatim>\<open>null\<close>.
\<close>

lemma MergeCR_non_overwrite_gap_fill:
  assumes "rangeOrder rng" and "defaultCR \<noteq> []" and "changedCR \<noteq> []"
    and "json_Unmarshal defaultCR = (MapOf D, e1)"
    and "json_Unmarshal changedCR = (MapOf C, e2)"
    and "fmlookup D k = Some dv"
  shows "\<exists>R. MergeCR rng json_Unmarshal defaultCR changedCR = Inr (MapOf R) \<and>
     (\<forall>cv. fmlookup C k = Some cv \<and> cv \<noteq> JNull \<and> (\<forall>cm. cv \<noteq> JObject cm) \<longrightarrow>
        fmlookup R k = Some cv) \<and>
     ((fmlookup C k = None \<or> fmlookup C k = Some JNull) \<and> dv \<noteq> JNull \<longrightarrow>
        fmlookup R k = Some dv)"
proof -
  from rangeDefaultCRDecoded_total [OF assms(1)] obtain R where
    R: "rangeDefaultCRDecoded rng (rng D) (MapOf D) (MapOf C) = Inr (MapOf R)" by blast
  have a: "fmlookup R k = Some cv"
    if "fmlookup C k = Some cv \<and> cv \<noteq> JNull \<and> (\<forall>cm. cv \<noteq> JObject cm)" for cv
  proof -
    from that have "mapIndex C k = cv" by (simp add: mapIndex_def)
    with that show ?thesis
      by (cases rule: merged_lookup_cases [OF assms(1) R assms(6)]) auto
  qed
  have b: "fmlookup R k = Some dv"
    if "(fmlookup C k = None \<or> fmlookup C k = Some JNull) \<and> dv \<noteq> JNull"
  proof -
    from that have "mapIndex C k = JNull" by (auto simp: mapIndex_def)
    with that show ?thesis
      by (cases rule: merged_lookup_cases [OF assms(1) R assms(6)]) auto
  qed
  from a b R MergeCR_both [OF assms(2-5)] show ?thesis by auto
qed

lemma MergeCR_non_overwrite_gap_fill_example:
  \<open>rangeOrder sortedKeys \<and>
   exampleUnmarshal ''{"a":{"x":1}}'' =
     (MapOf (fmap_of_list [(''a'', JObject (fmap_of_list [(''x'', JNumber 1)]))]), None) \<and>
   exampleUnmarshal ''{"a":"scalar"}'' =
     (MapOf (fmap_of_list [(''a'', JString ''scalar'')]), None) \<and>
   exampleUnmarshal ''{}'' = (MapOf fmempty, None) \<and>
   (\<exists>R. MergeCR sortedKeys exampleUnmarshal ''{"a":{"x":1}}'' ''{"a":"scalar"}''
          = Inr (MapOf R) \<and>
        fmlookup R ''a'' = Some (JString ''scalar'')) \<and>
   (\<exists>R. MergeCR sortedKeys exampleUnmarshal ''{"a":{"x":1}}'' ''{}'' = Inr (MapOf R) \<and>
        fmlookup R ''a'' = Some (JObject (fmap_of_list [(''x'', JNumber 1)])))\<close>
proof -
  let ?D = "fmap_of_list [(''a'', JObject (fmap_of_list [(''x'', JNumber 1)]))]"
  let ?C = "fmap_of_list [(''a'', JString ''scalar'')]"
  have d: \<open>exampleUnmarshal ''{"a":{"x":1}}'' = (MapOf ?D, None)\<close>
    by code_simp
  have c: \<open>exampleUnmarshal ''{"a":"scalar"}'' = (MapOf ?C, None)\<close>
    by code_simp
  have e: \<open>exampleUnmarshal ''{}'' = (MapOf fmempty, None)\<close>
    by code_simp
  have k: "fmlookup ?D ''a'' = Some (JObject (fmap_of_list [(''x'', JNumber 1)]))"
    by code_simp
  have kc: "fmlookup ?C ''a'' = Some (JString ''scalar'')"
    by code_simp
  from MergeCR_non_overwrite_gap_fill [where json_Unmarshal = exampleUnmarshal
      and defaultCR = \<open>''{"a":{"x":1}}''\<close> and changedCR = \<open>''{"a":"scalar"}''\<close>,
      OF rangeOrder_sortedKeys _ _ d c k] kc
  have a: \<open>\<exists>R. MergeCR sortedKeys exampleUnmarshal ''{"a":{"x":1}}'' ''{"a":"scalar"}''
          = Inr (MapOf R) \<and>
        fmlookup R ''a'' = Some (JString ''scalar'')\<close>
    by auto
  from MergeCR_non_overwrite_gap_fill [where json_Unmarshal = exampleUnmarshal
      and defaultCR = \<open>''{"a":{"x":1}}''\<close> and changedCR = \<open>''{}''\<close>,
      OF rangeOrder_sortedKeys _ _ d e k]
  have b: \<open>\<exists>R. MergeCR sortedKeys exampleUnmarshal ''{"a":{"x":1}}'' ''{}'' = Inr (MapOf R) \<and>
        fmlookup R ''a'' = Some (JObject (fmap_of_list [(''x'', JNumber 1)]))\<close>
    by auto
  from rangeOrder_sortedKeys d c e a b show ?thesis by blast
qed

text \<open>
  C6. Merging the default document into an already merged result changes nothing: when
  \<^verbatim>\<open>MergeCR\<close> returns \<open>R\<close> for the default and the changed text, it returns \<open>R\<close> again
  for the default text and any non-empty text that decodes to \<open>R\<close>.
\<close>

theorem MergeCR_idempotent:
  assumes "rangeOrder rng"
    and "MergeCR rng json_Unmarshal defaultCR changedCR = Inr R"
    and "mergedCR \<noteq> []" and "fst (json_Unmarshal mergedCR) = R"
  shows "MergeCR rng json_Unmarshal defaultCR mergedCR = Inr R"
proof (cases "defaultCR = []")
  case True
  with assms(3,4) show ?thesis
    by (auto simp: MergeCR_def split: prod.splits)
next
  case d: False
  obtain D e1 where D: "json_Unmarshal defaultCR = (D, e1)" by (cases "json_Unmarshal defaultCR")
  obtain e3 where M: "json_Unmarshal mergedCR = (R, e3)"
    using assms(4) by (cases "json_Unmarshal mergedCR") simp
  have "rangeDefaultCRDecoded rng (gomapRange rng D) D R = Inr R"
  proof (cases "changedCR = []")
    case True
    with d D assms(2) have "R = D" by (simp add: MergeCR_def)
    then show ?thesis by (simp add: rangeDefaultCRDecoded_self)
  next
    case False
    obtain C e2 where C: "json_Unmarshal changedCR = (C, e2)" by (cases "json_Unmarshal changedCR")
    from assms(2) MergeCR_both [OF d False D C]
    have "rangeDefaultCRDecoded rng (gomapRange rng D) D C = Inr R" by simp
    from rangeDefaultCRDecoded_idempotent [OF assms(1) this] show ?thesis .
  qed
  with MergeCR_both [OF d assms(3) D M] show ?thesis by simp
qed

theorem MergeCR_idempotent_witness:
  \<open>rangeOrder sortedKeys \<and>
   MergeCR sortedKeys exampleUnmarshal ''{"a":{"x":1,"y":2},"b":5}'' ''{"a":{"x":9},"c":"kept"}''
     = Inr (MapOf (fmap_of_list
              [(''a'', JObject (fmap_of_list [(''x'', JNumber 9), (''y'', JNumber 2)])),
               (''b'', JNumber 5), (''c'', JString ''kept'')])) \<and>
   ''{"a":{"x":9,"y":2},"b":5,"c":"kept"}'' \<noteq> [] \<and>
   fst (exampleUnmarshal ''{"a":{"x":9,"y":2},"b":5,"c":"kept"}'') =
     MapOf (fmap_of_list
       [(''a'', JObject (fmap_of_list [(''x'', JNumber 9), (''y'', JNumber 2)])),
        (''b'', JNumber 5), (''c'', JString ''kept'')]) \<and>
   MergeCR sortedKeys exampleUnmarshal ''{"a":{"x":1,"y":2},"b":5}''
       ''{"a":{"x":9,"y":2},"b":5,"c":"kept"}''
     = Inr (MapOf (fmap_of_list
              [(''a'', JObject (fmap_of_list [(''x'', JNumber 9), (''y'', JNumber 2)])),
               (''b'', JNumber 5), (''c'', JString ''kept'')]))\<close>
proof -
  let ?R = "MapOf (fmap_of_list
              [(''a'', JObject (fmap_of_list [(''x'', JNumber 9), (''y'', JNumber 2)])),
               (''b'', JNumber 5), (''c'', JString ''kept'')])"
  have m: \<open>MergeCR sortedKeys exampleUnmarshal ''{"a":{"x":1,"y":2},"b":5}''
      ''{"a":{"x":9},"c":"kept"}'' = Inr ?R\<close>
    by code_simp
  have n: \<open>''{"a":{"x":9,"y":2},"b":5,"c":"kept"}'' \<noteq> []\<close>
    by simp
  have f: \<open>fst (exampleUnmarshal ''{"a":{"x":9,"y":2},"b":5,"c":"kept"}'') = ?R\<close>
    by code_simp
  from MergeCR_idempotent [OF rangeOrder_sortedKeys m n f] rangeOrder_sortedKeys m n f
  show ?thesis by blast
qed

text \<open>
  C7. For two non-empty texts that decode to the maps \<open>D\<close> and \<open>C\<close>: a key that a
  mapping of \<open>C\<close> has (at the top level, the empty path, or at a path inside \<open>C\<close>) and
  that \<open>D\<close> does not have at that path keeps, at that path in the result, the value it
  has in \<open>C\<close>.
\<close>

theorem MergeCR_frame:
  assumes "rangeOrder rng" and "defaultCR \<noteq> []" and "changedCR \<noteq> []"
    and "json_Unmarshal defaultCR = (MapOf D, e1)"
    and "json_Unmarshal changedCR = (MapOf C, e2)"
    and "jsonAt (JObject C) path = JObject cm" and "fmlookup cm k = Some v"
    and "\<not> (\<exists>dm. jsonAt (JObject D) path = JObject dm \<and> k \<in> fmdom' dm)"
  shows "\<exists>R rm. MergeCR rng json_Unmarshal defaultCR changedCR = Inr (MapOf R) \<and>
           jsonAt (JObject R) path = JObject rm \<and> fmlookup rm k = Some v"
proof -
  from rangeDefaultCRDecoded_total [OF assms(1)] obtain R where
    R: "rangeDefaultCRDecoded rng (rng D) (MapOf D) (MapOf C) = Inr (MapOf R)" by blast
  from merged_keeps [OF assms(1) R assms(6-8)] R MergeCR_both [OF assms(2-5)]
  show ?thesis by auto
qed

theorem MergeCR_frame_witness:
  \<open>rangeOrder sortedKeys \<and>
   exampleUnmarshal ''{"a":{"x":1}}'' =
     (MapOf (fmap_of_list [(''a'', JObject (fmap_of_list [(''x'', JNumber 1)]))]), None) \<and>
   exampleUnmarshal ''{"a":{"z":7}}'' =
     (MapOf (fmap_of_list [(''a'', JObject (fmap_of_list [(''z'', JNumber 7)]))]), None) \<and>
   jsonAt (JObject (fmap_of_list [(''a'', JObject (fmap_of_list [(''x'', JNumber 1)]))])) [''a'']
     = JObject (fmap_of_list [(''x'', JNumber 1)]) \<and>
   ''z'' \<notin> fmdom' (fmap_of_list [(''x'', JNumber 1)]) \<and>
   (\<exists>R rm. MergeCR sortedKeys exampleUnmarshal ''{"a":{"x":1}}'' ''{"a":{"z":7}}''
            = Inr (MapOf R) \<and>
        jsonAt (JObject R) [''a''] = JObject rm \<and> fmlookup rm ''z'' = Some (JNumber 7))\<close>
proof -
  let ?D = "fmap_of_list [(''a'', JObject (fmap_of_list [(''x'', JNumber 1)]))]"
  let ?C = "fmap_of_list [(''a'', JObject (fmap_of_list [(''z'', JNumber 7)]))]"
  have d: \<open>exampleUnmarshal ''{"a":{"x":1}}'' = (MapOf ?D, None)\<close>
    by code_simp
  have c: \<open>exampleUnmarshal ''{"a":{"z":7}}'' = (MapOf ?C, None)\<close>
    by code_simp
  have pd: "jsonAt (JObject ?D) [''a''] = JObject (fmap_of_list [(''x'', JNumber 1)])"
    by code_simp
  have pc: "jsonAt (JObject ?C) [''a''] = JObject (fmap_of_list [(''z'', JNumber 7)])"
    by code_simp
  have k: "fmlookup (fmap_of_list [(''z'', JNumber 7)]) ''z'' = Some (JNumber 7)"
    by code_simp
  have z: "''z'' \<notin> fmdom' (fmap_of_list [(''x'', JNumber 1)])"
    by (simp add: fmdom'_alt_def)
  from pd z have n: "\<not> (\<exists>dm. jsonAt (JObject ?D) [''a''] = JObject dm \<and> ''z'' \<in> fmdom' dm)"
    by simp
  from MergeCR_frame [where json_Unmarshal = exampleUnmarshal
      and defaultCR = \<open>''{"a":{"x":1}}''\<close> and changedCR = \<open>''{"a":{"z":7}}''\<close>,
      OF rangeOrder_sortedKeys _ _ d c pc k n]
  have \<open>\<exists>R rm. MergeCR sortedKeys exampleUnmarshal ''{"a":{"x":1}}'' ''{"a":{"z":7}}''
            = Inr (MapOf R) \<and>
        jsonAt (JObject R) [''a''] = JObject rm \<and> fmlookup rm ''z'' = Some (JNumber 7)\<close>
    by simp
  with rangeOrder_sortedKeys d c pd z show ?thesis by blast
qed

text \<open>
  C8. At every call of \<^verbatim>\<open>checkKeyBeforeMerging\<close> that \<^verbatim>\<open>MergeCR\<close> makes, directly or
  through the recursion, the entry of \<^verbatim>\<open>finalMap\<close> at \<^verbatim>\<open>key\<close> is the value passed as
  \<^verbatim>\<open>changedMap\<close>; so where the default and the changed value are both mappings,
  \<^verbatim>\<open>finalMap[key]\<close> is that mapping, and the type assertion of line 72 never fails:
  \<^verbatim>\<open>MergeCR\<close> does not end in its panic.
\<close>

theorem MergeCR_type_assertion_safe:
  assumes "rangeOrder rng"
  shows "(\<forall>key defaultMap changedMap finalMap.
            (key, defaultMap, changedMap, finalMap)
              \<in> set (callsOfMergeCR rng json_Unmarshal defaultCR changedCR) \<longrightarrow>
            gomapIndex finalMap key = changedMap \<and>
            (\<forall>defaultMapRef changedMapRef.
               defaultMap = JObject defaultMapRef \<and> changedMap = JObject changedMapRef \<longrightarrow>
               (\<exists>entries. finalMap = MapOf entries \<and>
                  fmlookup entries key = Some (JObject changedMapRef)))) \<and>
         (\<forall>v. MergeCR rng json_Unmarshal defaultCR changedCR \<noteq> Inl (PanicInterfaceConversion v))"
proof (intro conjI allI impI)
  fix key defaultMap changedMap finalMap
  assume "(key, defaultMap, changedMap, finalMap)
              \<in> set (callsOfMergeCR rng json_Unmarshal defaultCR changedCR)"
  then have "callInvariant (key, defaultMap, changedMap, finalMap)"
    using callsOfRangeDefaultCR_invariant [OF assms]
    by (auto simp: callsOfMergeCR_def split: if_splits prod.splits)
  then show i: "gomapIndex finalMap key = changedMap"
    by (simp add: callInvariant_def)
  fix defaultMapRef changedMapRef
  assume "defaultMap = JObject defaultMapRef \<and> changedMap = JObject changedMapRef"
  with i have "gomapIndex finalMap key = JObject changedMapRef" by simp
  from gomapIndex_JObject [OF this] obtain entries where "finalMap = MapOf entries"
    and "mapIndex entries key = JObject changedMapRef" by blast
  with mapIndex_not_null [of entries key]
  show "\<exists>entries. finalMap = MapOf entries \<and> fmlookup entries key = Some (JObject changedMapRef)"
    by simp
next
  fix v
  show "MergeCR rng json_Unmarshal defaultCR changedCR \<noteq> Inl (PanicInterfaceConversion v)"
    using rangeDefaultCRDecoded_no_conversion_panic [OF assms]
    by (simp add: MergeCR_def split: prod.splits)
qed

theorem MergeCR_type_assertion_safe_witness:
  \<open>rangeOrder sortedKeys \<and>
   callsOfMergeCR sortedKeys exampleUnmarshal ''{"a":{"x":1,"y":2},"b":5}''
       ''{"a":{"x":9},"c":"kept"}'' =
     [(''a'', JObject (fmap_of_list [(''x'', JNumber 1), (''y'', JNumber 2)]),
         JObject (fmap_of_list [(''x'', JNumber 9)]),
         MapOf (fmap_of_list
           [(''a'', JObject (fmap_of_list [(''x'', JNumber 9)])), (''c'', JString ''kept'')])),
      (''x'', JNumber 1, JNumber 9, MapOf (fmap_of_list [(''x'', JNumber 9)])),
      (''y'', JNumber 2, JNull, MapOf (fmap_of_list [(''x'', JNumber 9)])),
      (''b'', JNumber 5, JNull,
         MapOf (fmap_of_list
           [(''a'', JObject (fmap_of_list [(''x'', JNumber 9), (''y'', JNumber 2)])),
            (''c'', JString ''kept'')]))] \<and>
   (\<exists>entries.
      MapOf (fmap_of_list
        [(''a'', JObject (fmap_of_list [(''x'', JNumber 9)])), (''c'', JString ''kept'')])
        = MapOf entries \<and>
      fmlookup entries ''a'' = Some (JObject (fmap_of_list [(''x'', JNumber 9)]))) \<and>
   (\<forall>v. MergeCR sortedKeys exampleUnmarshal ''{"a":{"x":1,"y":2},"b":5}''
          ''{"a":{"x":9},"c":"kept"}'' \<noteq> Inl (PanicInterfaceConversion v))\<close>
proof -
  let ?fm = "MapOf (fmap_of_list
           [(''a'', JObject (fmap_of_list [(''x'', JNumber 9)])), (''c'', JString ''kept'')])"
  let ?dm = "fmap_of_list [(''x'', JNumber 1), (''y'', JNumber 2)]"
  let ?cm = "fmap_of_list [(''x'', JNumber 9)]"
  have calls: \<open>callsOfMergeCR sortedKeys exampleUnmarshal ''{"a":{"x":1,"y":2},"b":5}''
       ''{"a":{"x":9},"c":"kept"}'' =
     [(''a'', JObject ?dm, JObject ?cm, ?fm),
      (''x'', JNumber 1, JNumber 9, MapOf (fmap_of_list [(''x'', JNumber 9)])),
      (''y'', JNumber 2, JNull, MapOf (fmap_of_list [(''x'', JNumber 9)])),
      (''b'', JNumber 5, JNull,
         MapOf (fmap_of_list
           [(''a'', JObject (fmap_of_list [(''x'', JNumber 9), (''y'', JNumber 2)])),
            (''c'', JString ''kept'')]))]\<close>
    by code_simp
  note safe = MergeCR_type_assertion_safe [OF rangeOrder_sortedKeys,
      where json_Unmarshal = exampleUnmarshal
      and defaultCR = \<open>''{"a":{"x":1,"y":2},"b":5}''\<close>
      and changedCR = \<open>''{"a":{"x":9},"c":"kept"}''\<close>]
  from safe have \<open>(''a'', JObject ?dm, JObject ?cm, ?fm)
              \<in> set (callsOfMergeCR sortedKeys exampleUnmarshal
                  ''{"a":{"x":1,"y":2},"b":5}'' ''{"a":{"x":9},"c":"kept"}'') \<longrightarrow>
      (\<exists>entries. ?fm = MapOf entries \<and> fmlookup entries ''a'' = Some (JObject ?cm))\<close>
    by blast
  with calls have "\<exists>entries. ?fm = MapOf entries \<and> fmlookup entries ''a'' = Some (JObject ?cm)"
    by simp
  with safe calls rangeOrder_sortedKeys show ?thesis by blast
qed

text \<open>
  C9. Two empty inputs give the empty map. With one input empty the other, as decoded, is
  the result, and \<^verbatim>\<open>checkKeyBeforeMerging\<close> is not called.
\<close>

theorem MergeCR_empty_inputs:
  "MergeCR rng json_Unmarshal [] [] = Inr (MapOf fmempty) \<and>
   (defaultCR \<noteq> [] \<longrightarrow>
      MergeCR rng json_Unmarshal defaultCR [] = Inr (fst (json_Unmarshal defaultCR)) \<and>
      callsOfMergeCR rng json_Unmarshal defaultCR [] = []) \<and>
   (changedCR \<noteq> [] \<longrightarrow>
      MergeCR rng json_Unmarshal [] changedCR = Inr (fst (json_Unmarshal changedCR)) \<and>
      callsOfMergeCR rng json_Unmarshal [] changedCR = [])"
  by (simp add: MergeCR_def callsOfMergeCR_def split: prod.splits)

theorem MergeCR_empty_inputs_witness:
  \<open>MergeCR sortedKeys exampleUnmarshal [] [] = Inr (MapOf fmempty) \<and>
   ''{"a":null}'' \<noteq> [] \<and>
   MergeCR sortedKeys exampleUnmarshal ''{"a":null}'' []
     = Inr (MapOf (fmap_of_list [(''a'', JNull)])) \<and>
   ''{"a":"scalar"}'' \<noteq> [] \<and>
   MergeCR sortedKeys exampleUnmarshal [] ''{"a":"scalar"}''
     = Inr (MapOf (fmap_of_list [(''a'', JString ''scalar'')]))\<close>
proof -
  have d: \<open>fst (exampleUnmarshal ''{"a":null}'') = MapOf (fmap_of_list [(''a'', JNull)])\<close>
    by code_simp
  have c: \<open>fst (exampleUnmarshal ''{"a":"scalar"}'')
      = MapOf (fmap_of_list [(''a'', JString ''scalar'')])\<close>
    by code_simp
  from MergeCR_empty_inputs [where rng = sortedKeys and json_Unmarshal = exampleUnmarshal
      and defaultCR = \<open>''{"a":null}''\<close> and changedCR = \<open>''{"a":"scalar"}''\<close>] d c
  show ?thesis by simp
qed

text \<open>
  C10. A document merged with itself is its decoding: every call compares two equal
  values and leaves the map as it is. (\<^verbatim>\<open>json.Unmarshal\<close> fails on an empty text and
  leaves the map empty, which is what the second alternative of the hypothesis says.)
\<close>

theorem MergeCR_same_document:
  assumes "defaultCR \<noteq> [] \<or> fst (json_Unmarshal []) = MapOf fmempty"
  shows "MergeCR rng json_Unmarshal defaultCR defaultCR = Inr (fst (json_Unmarshal defaultCR)) \<and>
         (\<forall>key defaultMap changedMap finalMap.
            (key, defaultMap, changedMap, finalMap)
              \<in> set (callsOfMergeCR rng json_Unmarshal defaultCR defaultCR) \<longrightarrow>
            defaultMap = changedMap \<and> finalMap = fst (json_Unmarshal defaultCR))"
  using assms
  by (auto simp: MergeCR_def callsOfMergeCR_def rangeDefaultCRDecoded_self
      callsOfRangeDefaultCR_self split: prod.splits)

theorem MergeCR_same_document_witness:
  \<open>''{"a":{"x":1,"y":2},"b":5}'' \<noteq> [] \<and>
   MergeCR sortedKeys exampleUnmarshal ''{"a":{"x":1,"y":2},"b":5}'' ''{"a":{"x":1,"y":2},"b":5}''
     = Inr (MapOf (fmap_of_list
              [(''a'', JObject (fmap_of_list [(''x'', JNumber 1), (''y'', JNumber 2)])),
               (''b'', JNumber 5)]))\<close>
proof -
  have d: \<open>fst (exampleUnmarshal ''{"a":{"x":1,"y":2},"b":5}'') =
      MapOf (fmap_of_list
        [(''a'', JObject (fmap_of_list [(''x'', JNumber 1), (''y'', JNumber 2)])),
         (''b'', JNumber 5)])\<close>
    by code_simp
  from MergeCR_same_document [where rng = sortedKeys and json_Unmarshal = exampleUnmarshal
      and defaultCR = \<open>''{"a":{"x":1,"y":2},"b":5}''\<close>] d
  show ?thesis by simp
qed

end
